theory Spec2Isabelle
  imports Main "HOL-Library.Multiset"
begin

section \<open>The ABNF parser of pfs-parser: a shallow embedding\<close>

text \<open>
  The development follows \<^verbatim>\<open>include/pfs/parser/abnf/parser.hpp\<close>. The input sequence is a
  \<^typ>\<open>string\<close>; a forward iterator into it is a position (\<^typ>\<open>nat\<close>); the end
  iterator \<^verbatim>\<open>last\<close> is the length of the string. The test \<^verbatim>\<open>p != last\<close> is
  \<open>p < length s\<close>.
\<close>

subsection \<open>Character classes\<close>

definition code :: "char \<Rightarrow> nat" where
  "code c = of_char c"

text \<open>
  Modelled from the spec: the character-class predicates of \<^verbatim>\<open>core_rules.hpp\<close>
  (that header is not among the sources). They are the core rules of RFC 5234:
  ALPHA, DIGIT, HEXDIG, BIT, SP, WSP, CR, LF, DQUOTE and VCHAR.
\<close>

definition is_alpha_char :: "char \<Rightarrow> bool" where
  "is_alpha_char c = ((65 \<le> code c \<and> code c \<le> 90) \<or> (97 \<le> code c \<and> code c \<le> 122))"

definition is_digit_char :: "char \<Rightarrow> bool" where
  "is_digit_char c = (48 \<le> code c \<and> code c \<le> 57)"

definition is_hexdigit_char :: "char \<Rightarrow> bool" where
  "is_hexdigit_char c =
     (is_digit_char c \<or> (65 \<le> code c \<and> code c \<le> 70) \<or> (97 \<le> code c \<and> code c \<le> 102))"

definition is_bit_char :: "char \<Rightarrow> bool" where
  "is_bit_char c = (code c = 48 \<or> code c = 49)"

definition is_space_char :: "char \<Rightarrow> bool" where
  "is_space_char c = (code c = 32)"

definition is_whitespace_char :: "char \<Rightarrow> bool" where
  "is_whitespace_char c = (code c = 32 \<or> code c = 9)"

definition is_cr_char :: "char \<Rightarrow> bool" where
  "is_cr_char c = (code c = 13)"

definition is_lf_char :: "char \<Rightarrow> bool" where
  "is_lf_char c = (code c = 10)"

definition is_dquote_char :: "char \<Rightarrow> bool" where
  "is_dquote_char c = (code c = 34)"

definition is_visible_char :: "char \<Rightarrow> bool" where
  "is_visible_char c = (33 \<le> code c \<and> code c \<le> 126)"

text \<open>\<^verbatim>\<open>is_prose_value_char\<close> (parser.hpp): \<^verbatim>\<open>%x20-3D / %x3F-7E\<close>.\<close>

definition is_prose_value_char :: "char \<Rightarrow> bool" where
  "is_prose_value_char c =
     ((32 \<le> code c \<and> code c \<le> 61) \<or> (63 \<le> code c \<and> code c \<le> 126))"

subsection \<open>Spans\<close>

text \<open>The characters between two iterators: the span from \<open>b\<close> up to \<open>e\<close>.\<close>

definition span :: "string \<Rightarrow> nat \<Rightarrow> nat \<Rightarrow> string" where
  "span s b e = take (e - b) (drop b s)"

subsection \<open>\<^verbatim>\<open>to_decimal_number\<close>\<close>

text \<open>
  \<^verbatim>\<open>long\<close> is the 64-bit signed integer of an LP64 platform, held as an \<^typ>\<open>int\<close>;
  \<open>wrap_long\<close> is the two's-complement wrap-around of an arithmetic result.
  The division and remainder of C++ truncate towards zero.
\<close>

definition LONG_MAX :: int where
  "LONG_MAX = 9223372036854775807"

definition LONG_MIN :: int where
  "LONG_MIN = - 9223372036854775808"

definition wrap_long :: "int \<Rightarrow> int" where
  "wrap_long x = (x + 9223372036854775808) mod 18446744073709551616 - 9223372036854775808"

definition c_div :: "int \<Rightarrow> int \<Rightarrow> int" where
  "c_div a b = sgn a * sgn b * (\<bar>a\<bar> div \<bar>b\<bar>)"

definition c_rem :: "int \<Rightarrow> int \<Rightarrow> int" where
  "c_rem a b = a - b * c_div a b"

definition radix :: int where
  "radix = 10"

text \<open>
  \<^verbatim>\<open>cutoff_value = LONG_MIN / radix; cutoff_limit = LONG_MIN % radix;\<close> and then both
  \<^verbatim>\<open>*= -1\<close>.
\<close>

definition cutoff_value :: int where
  "cutoff_value = wrap_long (c_div LONG_MIN radix * (- 1))"

definition cutoff_limit :: int where
  "cutoff_limit = wrap_long (c_rem LONG_MIN radix * (- 1))"

text \<open>
  \<^verbatim>\<open>digit = uint32_t(*first) - uint32_t(char_type('0'))\<close>: a subtraction of unsigned 32-bit
  values, which wraps below zero. The character is taken by its byte value (a signed
  \<^verbatim>\<open>char\<close> above 127 would convert to a different value of the same 32 bits, still
  greater than 9 after the subtraction).
\<close>

definition digit_of :: "char \<Rightarrow> int" where
  "digit_of c = (int (code c) - 48) mod 4294967296"

text \<open>
  The loop of \<^verbatim>\<open>to_decimal_number\<close> over the characters of the span. The test
  \<^verbatim>\<open>digit < 0\<close> of the source is on an unsigned value and never holds.
\<close>

fun to_decimal_loop :: "int \<Rightarrow> string \<Rightarrow> int \<times> bool" where
  "to_decimal_loop result [] = (result, True)"
| "to_decimal_loop result (c # cs) =
     (if digit_of c > 9 then (0, False)
      else if result < cutoff_value \<or> (result = cutoff_value \<and> digit_of c \<le> cutoff_limit)
      then to_decimal_loop (wrap_long (wrap_long (result * radix) + digit_of c)) cs
      else (LONG_MAX, False))"

definition to_decimal_number :: "string \<Rightarrow> nat \<Rightarrow> nat \<Rightarrow> int \<times> bool" where
  "to_decimal_number s b e = to_decimal_loop 0 (span s b e)"

text \<open>The number a string of decimal digits denotes (most significant digit first).\<close>

fun denoted_from :: "nat \<Rightarrow> string \<Rightarrow> nat" where
  "denoted_from v [] = v"
| "denoted_from v (c # cs) = denoted_from (10 * v + (code c - 48)) cs"

definition denoted_value :: "string \<Rightarrow> nat" where
  "denoted_value ds = denoted_from 0 ds"

text \<open>
  The numbers that the leading parts of a string of digits denote, shortest part first: the
  values that a reader of the digits passes through, starting from \<open>v\<close>.
\<close>

fun values_read :: "nat \<Rightarrow> string \<Rightarrow> nat list" where
  "values_read v [] = []"
| "values_read v (c # cs) = (10 * v + (code c - 48)) # values_read (10 * v + (code c - 48)) cs"

subsection \<open>Callbacks, observers and results\<close>

datatype number_flag = unspecified | binary | decimal | hexadecimal

datatype errc = unbalanced_quote | bad_quoted_char | max_length_exceeded | bad_repeat_range

text \<open>
  One constructor for each callback the contexts of parser.hpp name, with the arguments of
  the call; iterators are positions. \<open>comment\<close> is the callback of the
  \<^verbatim>\<open>CommentContext\<close> that the documentation of \<^verbatim>\<open>advance_comment\<close> refers to.
\<close>

datatype event =
    prose nat nat
  | first_number number_flag nat nat
  | last_number number_flag nat nat
  | next_number number_flag nat nat
  | quoted_string nat nat
  | error errc nat
  | repeat int int
  | rulename nat nat
  | comment nat nat
  | begin_repetition
  | end_repetition bool
  | begin_concatenation
  | end_concatenation bool
  | begin_alternation
  | end_alternation bool
  | begin_group
  | end_group bool
  | begin_option
  | end_option bool
  | begin_rule nat nat bool
  | end_rule nat nat bool bool
  | begin_document
  | end_document bool

text \<open>
  The context \<^verbatim>\<open>ctx\<close> is any object with these member functions; it may keep state.
  What a deterministic observer returns from a callback is a function of the callbacks it
  has received so far and of the present one: \<open>answer\<close>. The parser's side of the state is
  the list of the callbacks made so far, oldest first.
\<close>

record observer =
  answer :: "event list \<Rightarrow> event \<Rightarrow> bool"
  max_quoted_string_length :: "event list \<Rightarrow> nat"

definition notify :: "observer \<Rightarrow> event list \<Rightarrow> event \<Rightarrow> bool \<times> event list" where
  "notify ctx tr ev = (answer ctx tr ev, tr @ [ev])"

text \<open>\<^verbatim>\<open>success = success && ctx.callback(...)\<close>: the call is made only when \<open>success\<close> holds.\<close>

definition and_notify :: "bool \<Rightarrow> observer \<Rightarrow> event list \<Rightarrow> event \<Rightarrow> bool \<times> event list" where
  "and_notify success ctx tr ev = (if success then notify ctx tr ev else (False, tr))"

text \<open>
  A call either returns, or it reads the character at the end position (\<^verbatim>\<open>*p\<close> with
  \<^verbatim>\<open>p == last\<close>, which C++ leaves undefined), or the bound on the depth of the recursion
  that the model carries is used up. A read at the end position is kept with the callbacks
  that were made before it; nothing is known of what follows it.
\<close>

datatype fault = end_dereferenced "event list" | fuel_exhausted

text \<open>What an advancer leaves: the returned flag, the caller's cursor, the callbacks made.\<close>

type_synonym advance = "bool \<times> nat \<times> event list"

text \<open>\<^verbatim>\<open>*p\<close>, after the callbacks \<open>tr\<close>.\<close>

definition deref :: "string \<Rightarrow> nat \<Rightarrow> event list \<Rightarrow> fault + char" where
  "deref s p tr = (if p < length s then Inr (s ! p) else Inl (end_dereferenced tr))"

definition and_then :: "fault + 'a \<Rightarrow> ('a \<Rightarrow> fault + 'b) \<Rightarrow> fault + 'b" where
  "and_then m f = (case m of Inl e \<Rightarrow> Inl e | Inr x \<Rightarrow> f x)"

text \<open>\<^verbatim>\<open>a || b\<close> on two advancers that share the cursor: \<open>b\<close> runs from where \<open>a\<close> left it.\<close>

definition or_else :: "fault + advance \<Rightarrow> (nat \<Rightarrow> event list \<Rightarrow> fault + advance) \<Rightarrow> fault + advance" where
  "or_else m f = (case m of Inl e \<Rightarrow> Inl e | Inr (ok, pos, tr) \<Rightarrow> if ok then Inr (ok, pos, tr) else f pos tr)"

text \<open>
  Modelled from the spec: \<^verbatim>\<open>compare_and_assign\<close> of \<^verbatim>\<open>generator.hpp\<close> (not among the
  sources). It writes the local cursor back to the caller's and returns whether the cursor
  moved: every advancer documents its result as "true if advanced by at least one position,
  otherwise false".
\<close>

definition compare_and_assign :: "nat \<Rightarrow> nat \<Rightarrow> bool \<times> nat" where
  "compare_and_assign pos p = (pos \<noteq> p, p)"

text \<open>\<^verbatim>\<open>return success && compare_and_assign(pos, p);\<close>\<close>

definition finish :: "bool \<Rightarrow> nat \<Rightarrow> nat \<Rightarrow> event list \<Rightarrow> fault + advance" where
  "finish success pos p tr =
     (if success then Inr (fst (compare_and_assign pos p), snd (compare_and_assign pos p), tr)
      else Inr (False, pos, tr))"

subsection \<open>Token advancers\<close>

text \<open>\<^verbatim>\<open>while (p != last && P(*p)) ++p;\<close>\<close>

function skip_chars :: "(char \<Rightarrow> bool) \<Rightarrow> string \<Rightarrow> nat \<Rightarrow> nat" where
  "skip_chars P s p = (if p < length s \<and> P (s ! p) then skip_chars P s (Suc p) else p)"
  by pat_completeness auto
termination
  by (relation "measure (\<lambda>(P, s, p). length s - p)") auto

declare skip_chars.simps [simp del]

text \<open>
  Modelled from the spec: the token advancers of \<^verbatim>\<open>core_rules.hpp\<close> (not among the
  sources): a run \<^verbatim>\<open>1*DIGIT\<close>, \<^verbatim>\<open>1*HEXDIG\<close>, \<^verbatim>\<open>1*BIT\<close>; a newline, which is CR LF, a
  bare LF or a bare CR; one step of linear white space (\<^verbatim>\<open>WSP / newline WSP\<close>). Each one
  returns whether it advanced, and leaves the cursor alone otherwise.
\<close>

definition advance_digit_chars :: "string \<Rightarrow> nat \<Rightarrow> bool \<times> nat" where
  "advance_digit_chars s pos = compare_and_assign pos (skip_chars is_digit_char s pos)"

definition advance_hexdigit_chars :: "string \<Rightarrow> nat \<Rightarrow> bool \<times> nat" where
  "advance_hexdigit_chars s pos = compare_and_assign pos (skip_chars is_hexdigit_char s pos)"

definition advance_bit_chars :: "string \<Rightarrow> nat \<Rightarrow> bool \<times> nat" where
  "advance_bit_chars s pos = compare_and_assign pos (skip_chars is_bit_char s pos)"

definition advance_newline :: "string \<Rightarrow> nat \<Rightarrow> bool \<times> nat" where
  "advance_newline s pos =
     (if \<not> pos < length s then (False, pos)
      else if is_cr_char (s ! pos) then
        (if Suc pos < length s \<and> is_lf_char (s ! Suc pos) then (True, pos + 2) else (True, pos + 1))
      else if is_lf_char (s ! pos) then (True, pos + 1)
      else (False, pos))"

definition advance_linear_whitespace :: "string \<Rightarrow> nat \<Rightarrow> bool \<times> nat" where
  "advance_linear_whitespace s pos =
     (if \<not> pos < length s then (False, pos)
      else if is_whitespace_char (s ! pos) then (True, Suc pos)
      else if fst (advance_newline s pos) then
        (let p = snd (advance_newline s pos) in
         if p < length s \<and> is_whitespace_char (s ! p) then (True, Suc p) else (False, pos))
      else (False, pos))"

subsection \<open>Comments and white space\<close>

text \<open>
  \<^verbatim>\<open>advance_comment\<close> takes no context. Its reads of \<^verbatim>\<open>*p\<close> all stand behind a test
  \<^verbatim>\<open>p != last\<close>, as do the reads of the next two functions and of
  \<^verbatim>\<open>advance_defined_as\<close>; they are written \<open>s ! p\<close> under that test.
\<close>

definition advance_comment :: "string \<Rightarrow> nat \<Rightarrow> bool \<times> nat" where
  "advance_comment s pos =
     (if \<not> pos < length s then (False, pos)
      else if s ! pos \<noteq> CHR '';'' then (False, pos)
      else
        (let p = skip_chars (\<lambda>c. \<not> (is_cr_char c \<or> is_lf_char c)) s (Suc pos);
             p = (if p < length s then snd (advance_newline s p) else p)
         in compare_and_assign pos p))"

definition advance_comment_newline :: "string \<Rightarrow> nat \<Rightarrow> bool \<times> nat" where
  "advance_comment_newline s pos =
     (if fst (advance_newline s pos) then advance_newline s pos
      else advance_comment s (snd (advance_newline s pos)))"

definition advance_comment_whitespace :: "string \<Rightarrow> nat \<Rightarrow> bool \<times> nat" where
  "advance_comment_whitespace s pos =
     (if \<not> pos < length s then (False, pos)
      else if is_whitespace_char (s ! pos) then compare_and_assign pos (Suc pos)
      else if fst (advance_comment_newline s pos) then
        (let p = snd (advance_comment_newline s pos) in
         if \<not> p < length s then (False, pos)
         else if \<not> is_whitespace_char (s ! p) then (False, pos)
         else compare_and_assign pos (Suc p))
      else (False, pos))"

text \<open>Each of these advances on success and stays within the input; that ends the loops below.\<close>

lemma skip_chars_ge: "p \<le> skip_chars P s p"
proof (induction P s p rule: skip_chars.induct)
  case (1 P s p)
  show ?case
  proof (cases "p < length s \<and> P (s ! p)")
    case True
    with 1 have "Suc p \<le> skip_chars P s (Suc p)" by simp
    with True show ?thesis by (subst skip_chars.simps) simp
  next
    case False
    then show ?thesis by (subst skip_chars.simps) auto
  qed
qed

lemma skip_chars_le: "p \<le> length s \<Longrightarrow> skip_chars P s p \<le> length s"
proof (induction P s p rule: skip_chars.induct)
  case (1 P s p)
  show ?case
  proof (cases "p < length s \<and> P (s ! p)")
    case True
    with 1 have "skip_chars P s (Suc p) \<le> length s" by simp
    with True show ?thesis by (subst skip_chars.simps) simp
  next
    case False
    with 1 show ?thesis by (subst skip_chars.simps) auto
  qed
qed

lemma advance_newline_progress:
  "fst (advance_newline s p) \<Longrightarrow> p < snd (advance_newline s p) \<and> snd (advance_newline s p) \<le> length s"
  by (auto simp: advance_newline_def split: if_splits)

lemma advance_newline_stay: "\<not> fst (advance_newline s p) \<Longrightarrow> snd (advance_newline s p) = p"
  by (auto simp: advance_newline_def split: if_splits)

lemma advance_newline_le: "p \<le> length s \<Longrightarrow> snd (advance_newline s p) \<le> length s"
  by (auto simp: advance_newline_def split: if_splits)

lemma advance_newline_ge: "p \<le> snd (advance_newline s p)"
  by (auto simp: advance_newline_def split: if_splits)

lemma advance_comment_progress:
  "fst (advance_comment s p) \<Longrightarrow> p < snd (advance_comment s p) \<and> snd (advance_comment s p) \<le> length s"
proof -
  assume a: "fst (advance_comment s p)"
  let ?q = "skip_chars (\<lambda>c. \<not> (is_cr_char c \<or> is_lf_char c)) s (Suc p)"
  from a have lt: "p < length s"
    by (auto simp: advance_comment_def split: if_splits)
  have q1: "Suc p \<le> ?q" by (rule skip_chars_ge)
  have q2: "?q \<le> length s" using lt by (intro skip_chars_le) simp
  have q3: "?q \<le> snd (advance_newline s ?q)" by (rule advance_newline_ge)
  have q4: "snd (advance_newline s ?q) \<le> length s" using q2 by (rule advance_newline_le)
  from a lt q1 q2 q3 q4 show ?thesis
    by (auto simp: advance_comment_def compare_and_assign_def Let_def split: if_splits)
qed

lemma advance_comment_stay: "\<not> fst (advance_comment s p) \<Longrightarrow> snd (advance_comment s p) = p"
  by (auto simp: advance_comment_def compare_and_assign_def Let_def split: if_splits)

lemma advance_comment_newline_progress:
  "fst (advance_comment_newline s p) \<Longrightarrow>
     p < snd (advance_comment_newline s p) \<and> snd (advance_comment_newline s p) \<le> length s"
proof (cases "fst (advance_newline s p)")
  case True
  then show ?thesis
    using advance_newline_progress [of s p] by (simp add: advance_comment_newline_def)
next
  case False
  assume a: "fst (advance_comment_newline s p)"
  from False have "snd (advance_newline s p) = p" by (rule advance_newline_stay)
  with False a show ?thesis
    using advance_comment_progress [of s p] by (simp add: advance_comment_newline_def)
qed

lemma advance_comment_newline_stay:
  "\<not> fst (advance_comment_newline s p) \<Longrightarrow> snd (advance_comment_newline s p) = p"
proof (cases "fst (advance_newline s p)")
  case True
  assume "\<not> fst (advance_comment_newline s p)"
  with True show ?thesis by (simp add: advance_comment_newline_def)
next
  case False
  assume a: "\<not> fst (advance_comment_newline s p)"
  from False have "snd (advance_newline s p) = p" by (rule advance_newline_stay)
  with False a show ?thesis
    using advance_comment_stay [of s p] by (simp add: advance_comment_newline_def)
qed

lemma advance_comment_whitespace_progress:
  "fst (advance_comment_whitespace s p) \<Longrightarrow>
     p < snd (advance_comment_whitespace s p) \<and> snd (advance_comment_whitespace s p) \<le> length s"
  using advance_comment_newline_progress [of s p]
  by (auto simp: advance_comment_whitespace_def compare_and_assign_def Let_def split: if_splits)

lemma advance_comment_whitespace_stay:
  "\<not> fst (advance_comment_whitespace s p) \<Longrightarrow> snd (advance_comment_whitespace s p) = p"
  by (auto simp: advance_comment_whitespace_def compare_and_assign_def Let_def split: if_splits)

lemma advance_linear_whitespace_progress:
  "fst (advance_linear_whitespace s p) \<Longrightarrow>
     p < snd (advance_linear_whitespace s p) \<and> snd (advance_linear_whitespace s p) \<le> length s"
  using advance_newline_progress [of s p]
  by (auto simp: advance_linear_whitespace_def Let_def split: if_splits)

lemma advance_linear_whitespace_stay:
  "\<not> fst (advance_linear_whitespace s p) \<Longrightarrow> snd (advance_linear_whitespace s p) = p"
  by (auto simp: advance_linear_whitespace_def Let_def split: if_splits)

text \<open>\<^verbatim>\<open>while (advance_comment_whitespace(p, last)) ;\<close>\<close>

function skip_comment_whitespace :: "string \<Rightarrow> nat \<Rightarrow> nat" where
  "skip_comment_whitespace s p =
     (if fst (advance_comment_whitespace s p)
      then skip_comment_whitespace s (snd (advance_comment_whitespace s p))
      else snd (advance_comment_whitespace s p))"
  by pat_completeness auto
termination
proof (relation "measure (\<lambda>(s, p). length s - p)")
  show "wf (measure (\<lambda>(s, p). length s - p))" by simp
next
  fix s p
  assume "fst (advance_comment_whitespace s p)"
  then have "p < snd (advance_comment_whitespace s p) \<and> snd (advance_comment_whitespace s p) \<le> length s"
    by (rule advance_comment_whitespace_progress)
  then show "((s, snd (advance_comment_whitespace s p)), (s, p)) \<in> measure (\<lambda>(s, p). length s - p)"
    by simp arith
qed

declare skip_comment_whitespace.simps [simp del]

text \<open>\<^verbatim>\<open>while (advance_linear_whitespace(p, last)) ;\<close>\<close>

function skip_linear_whitespace :: "string \<Rightarrow> nat \<Rightarrow> nat" where
  "skip_linear_whitespace s p =
     (if fst (advance_linear_whitespace s p)
      then skip_linear_whitespace s (snd (advance_linear_whitespace s p))
      else snd (advance_linear_whitespace s p))"
  by pat_completeness auto
termination
proof (relation "measure (\<lambda>(s, p). length s - p)")
  show "wf (measure (\<lambda>(s, p). length s - p))" by simp
next
  fix s p
  assume "fst (advance_linear_whitespace s p)"
  then have "p < snd (advance_linear_whitespace s p) \<and> snd (advance_linear_whitespace s p) \<le> length s"
    by (rule advance_linear_whitespace_progress)
  then show "((s, snd (advance_linear_whitespace s p)), (s, p)) \<in> measure (\<lambda>(s, p). length s - p)"
    by simp arith
qed

declare skip_linear_whitespace.simps [simp del]

subsection \<open>The advancers for values\<close>

text \<open>
  In the advancers that take a context, every \<^verbatim>\<open>*p\<close> of the source is a \<open>deref\<close>, whether
  or not a test against \<^verbatim>\<open>last\<close> comes before it.
\<close>

definition advance_prose :: "string \<Rightarrow> observer \<Rightarrow> nat \<Rightarrow> event list \<Rightarrow> fault + advance" where
  "advance_prose s ctx pos tr =
     (if \<not> pos < length s then Inr (False, pos, tr)
      else and_then (deref s pos tr) (\<lambda>c.
        if c \<noteq> CHR ''<'' then Inr (False, pos, tr)
        else
          (let first_pos = Suc pos;
               p = skip_chars is_prose_value_char s first_pos
           in if \<not> p < length s then Inr (False, pos, tr)
              else and_then (deref s p tr) (\<lambda>c.
                if c \<noteq> CHR ''>'' then Inr (False, pos, tr)
                else
                  (let (success, tr) = notify ctx tr (prose first_pos p)
                   in finish success pos (Suc p) tr)))))"

text \<open>
  \<^verbatim>\<open>advance_number\<close> picks \<^verbatim>\<open>advance_func\<close>, \<^verbatim>\<open>is_digit_func\<close> and \<^verbatim>\<open>flag\<close> together
  from the character after the percent sign; here the two functions are read off the flag.
\<close>

definition advance_func :: "number_flag \<Rightarrow> string \<Rightarrow> nat \<Rightarrow> bool \<times> nat" where
  "advance_func flag =
     (case flag of
        hexadecimal \<Rightarrow> advance_hexdigit_chars
      | decimal \<Rightarrow> advance_digit_chars
      | binary \<Rightarrow> advance_bit_chars
      | unspecified \<Rightarrow> (\<lambda>s pos. (False, pos)))"

definition is_digit_func :: "number_flag \<Rightarrow> char \<Rightarrow> bool" where
  "is_digit_func flag =
     (case flag of
        hexadecimal \<Rightarrow> is_hexdigit_char
      | decimal \<Rightarrow> is_digit_char
      | binary \<Rightarrow> is_bit_char
      | unspecified \<Rightarrow> (\<lambda>c. False))"

lemma advance_func_progress:
  "fst (advance_func flag s p) \<Longrightarrow> p < snd (advance_func flag s p)"
  using skip_chars_ge [of p _ s]
  by (cases flag)
     (auto simp: advance_func_def advance_hexdigit_chars_def advance_digit_chars_def
        advance_bit_chars_def compare_and_assign_def le_neq_implies_less)

lemma and_then_cong [fundef_cong]:
  "m = m' \<Longrightarrow> (\<And>x. m' = Inr x \<Longrightarrow> f x = f' x) \<Longrightarrow> and_then m f = and_then m' f'"
  by (cases m') (simp_all add: and_then_def)

text \<open>
  The loop \<^verbatim>\<open>while (*p == '.') { ... }\<close> of \<^verbatim>\<open>advance_number\<close>. The first component of
  the result is \<open>False\<close> when the loop left the function by \<^verbatim>\<open>return false\<close>.
\<close>

function number_sequence ::
  "string \<Rightarrow> observer \<Rightarrow> number_flag \<Rightarrow> bool \<Rightarrow> nat \<Rightarrow> event list \<Rightarrow> fault + (bool \<times> bool \<times> nat \<times> event list)" where
  "number_sequence s ctx flag success p tr =
     and_then (deref s p tr) (\<lambda>c.
       if c \<noteq> CHR ''.'' then Inr (True, success, p, tr)
       else and_then (deref s (Suc p) tr) (\<lambda>d.
         if \<not> is_digit_func flag d then Inr (False, success, Suc p, tr)
         else if \<not> fst (advance_func flag s (Suc p)) then Inr (False, success, Suc p, tr)
         else number_sequence s ctx flag
                (fst (and_notify success ctx tr (next_number flag (Suc p) (snd (advance_func flag s (Suc p))))))
                (snd (advance_func flag s (Suc p)))
                (snd (and_notify success ctx tr (next_number flag (Suc p) (snd (advance_func flag s (Suc p))))))))"
  by pat_completeness auto
termination
proof (relation "measure (\<lambda>(s, ctx, flag, success, p, tr). length s - p)")
  show "wf (measure (\<lambda>(s, ctx, flag, success, p, tr). length s - p))" by simp
next
  fix s :: string and ctx :: observer and flag success p and tr :: "event list" and c d
  assume a: "deref s p tr = Inr c" and b: "\<not> \<not> fst (advance_func flag s (Suc p))"
  from a have "p < length s" by (simp add: deref_def split: if_splits)
  moreover from b have "Suc p < snd (advance_func flag s (Suc p))"
    by (simp add: advance_func_progress)
  ultimately show "((s, ctx, flag,
       fst (and_notify success ctx tr (next_number flag (Suc p) (snd (advance_func flag s (Suc p))))),
       snd (advance_func flag s (Suc p)),
       snd (and_notify success ctx tr (next_number flag (Suc p) (snd (advance_func flag s (Suc p)))))),
      s, ctx, flag, success, p, tr)
     \<in> measure (\<lambda>(s, ctx, flag, success, p, tr). length s - p)"
    by simp
qed

declare number_sequence.simps [simp del]

text \<open>\<^verbatim>\<open>advance_number\<close> from the point where the flag is known (\<open>p\<close> is after the letter).\<close>

definition number_value ::
  "string \<Rightarrow> observer \<Rightarrow> number_flag \<Rightarrow> nat \<Rightarrow> nat \<Rightarrow> event list \<Rightarrow> fault + advance" where
  "number_value s ctx flag pos p tr =
     (if \<not> p < length s then Inr (False, pos, tr)
      else if \<not> fst (advance_func flag s p) then Inr (False, pos, tr)
      else
        (let first_pos = p;
             p = snd (advance_func flag s p);
             (success, tr) = notify ctx tr (first_number flag first_pos p)
         in if p < length s then
              and_then (deref s p tr) (\<lambda>c.
                if c = CHR ''-'' then
                  (let p = Suc p
                   in and_then (deref s p tr) (\<lambda>d.
                        if \<not> is_digit_func flag d then Inr (False, pos, tr)
                        else if \<not> fst (advance_func flag s p) then Inr (False, pos, tr)
                        else
                          (let first_pos = p;
                               p = snd (advance_func flag s p);
                               (success, tr) = and_notify success ctx tr (last_number flag first_pos p)
                           in finish success pos p tr)))
                else if c = CHR ''.'' then
                  and_then (number_sequence s ctx flag success p tr) (\<lambda>(completed, success, p, tr).
                    if \<not> completed then Inr (False, pos, tr)
                    else
                      (let (success, tr) = and_notify success ctx tr (last_number flag p p)
                       in finish success pos p tr))
                else
                  (let (success, tr) = and_notify success ctx tr (last_number flag p p)
                   in finish success pos p tr))
            else
              (let (success, tr) = and_notify success ctx tr (last_number flag p p)
               in finish success pos p tr)))"

definition advance_number :: "string \<Rightarrow> observer \<Rightarrow> nat \<Rightarrow> event list \<Rightarrow> fault + advance" where
  "advance_number s ctx pos tr =
     (if \<not> pos < length s then Inr (False, pos, tr)
      else and_then (deref s pos tr) (\<lambda>c.
        if c \<noteq> CHR ''%'' then Inr (False, pos, tr)
        else
          (let p = Suc pos
           in if \<not> p < length s then Inr (False, pos, tr)
              else and_then (deref s p tr) (\<lambda>c.
                if c = CHR ''x'' then number_value s ctx hexadecimal pos (Suc p) tr
                else if c = CHR ''d'' then number_value s ctx decimal pos (Suc p) tr
                else if c = CHR ''b'' then number_value s ctx binary pos (Suc p) tr
                else Inr (False, pos, tr)))))"

text \<open>\<^verbatim>\<open>size_t\<close> is 64 bits wide.\<close>

definition SIZE_MAX :: nat where
  "SIZE_MAX = 18446744073709551615"

text \<open>
  The loop of \<^verbatim>\<open>advance_quoted_string\<close> over the quoted characters: it ends with the error
  to report and its position, or with the cursor on the closing quote or on the end.
\<close>

function quoted_chars :: "string \<Rightarrow> nat \<Rightarrow> nat \<Rightarrow> nat \<Rightarrow> nat \<Rightarrow> (errc \<times> nat) + nat" where
  "quoted_chars s first_pos max_length len p =
     (if p < length s \<and> \<not> is_dquote_char (s ! p) then
        (if \<not> (is_visible_char (s ! p) \<or> is_space_char (s ! p)) then Inl (bad_quoted_char, p)
         else if len = max_length then Inl (max_length_exceeded, first_pos)
         else quoted_chars s first_pos max_length (Suc len) (Suc p))
      else Inr p)"
  by pat_completeness auto
termination
  by (relation "measure (\<lambda>(s, first_pos, max_length, len, p). length s - p)") auto

declare quoted_chars.simps [simp del]

definition advance_quoted_string :: "string \<Rightarrow> observer \<Rightarrow> nat \<Rightarrow> event list \<Rightarrow> fault + advance" where
  "advance_quoted_string s ctx pos tr =
     (if \<not> pos < length s then Inr (False, pos, tr)
      else and_then (deref s pos tr) (\<lambda>c.
        if \<not> is_dquote_char c then Inr (False, pos, tr)
        else
          (let p = Suc pos; first_pos = p
           in if \<not> p < length s then Inr (False, pos, tr @ [error unbalanced_quote first_pos])
              else
                (let max_length = max_quoted_string_length ctx tr;
                     max_length = (if max_length = 0 then SIZE_MAX else max_length)
                 in case quoted_chars s first_pos max_length 0 p of
                      Inl (ec, near_pos) \<Rightarrow> Inr (False, pos, tr @ [error ec near_pos])
                    | Inr p \<Rightarrow>
                        if \<not> p < length s then Inr (False, pos, tr @ [error unbalanced_quote first_pos])
                        else
                          (let (success, tr) = notify ctx tr (quoted_string first_pos p)
                           in finish success pos (Suc p) tr)))))"

text \<open>
  The block \<^verbatim>\<open>do { ... } while (false)\<close> of \<^verbatim>\<open>advance_repeat\<close>: it leaves \<open>p\<close>,
  \<open>first_from\<close>, \<open>last_from\<close>, \<open>first_to\<close> and \<open>last_to\<close>, all of which start at \<open>pos\<close>.
\<close>

definition repeat_bounds :: "string \<Rightarrow> nat \<Rightarrow> event list \<Rightarrow> fault + (nat \<times> nat \<times> nat \<times> nat \<times> nat)" where
  "repeat_bounds s pos tr =
     and_then (deref s pos tr) (\<lambda>c.
       let p = (if is_digit_char c then snd (advance_digit_chars s pos) else pos);
           last_from = p
       in if is_digit_char c \<and> \<not> p < length s then Inr (p, pos, last_from, pos, last_from)
          else and_then (deref s p tr) (\<lambda>c.
            if c = CHR ''*'' then
              (let p = Suc p
               in if \<not> p < length s then Inr (p, pos, last_from, pos, pos)
                  else and_then (deref s p tr) (\<lambda>d.
                    if is_digit_char d then Inr (snd (advance_digit_chars s p), pos, last_from, p, snd (advance_digit_chars s p))
                    else Inr (p, pos, last_from, pos, pos)))
            else Inr (p, pos, last_from, pos, pos)))"

definition advance_repeat :: "string \<Rightarrow> observer \<Rightarrow> nat \<Rightarrow> event list \<Rightarrow> fault + advance" where
  "advance_repeat s ctx pos tr =
     (if \<not> pos < length s then Inr (False, pos, tr)
      else and_then (repeat_bounds s pos tr) (\<lambda>(p, first_from, last_from, first_to, last_to).
        if p \<noteq> pos then
          (let from = to_decimal_number s first_from last_from;
               to = to_decimal_number s first_to last_to
           in if \<not> snd from then Inr (False, pos, tr @ [error bad_repeat_range first_from])
              else if \<not> snd to then Inr (False, pos, tr @ [error bad_repeat_range first_to])
              else
                (let to_first = (if first_to = last_to then LONG_MAX else fst to)
                 in if fst from > to_first then Inr (False, pos, tr @ [error bad_repeat_range first_from])
                    else
                      (let (success, tr) = notify ctx tr (repeat (fst from) to_first)
                       in finish success pos p tr)))
        else finish True pos p tr))"

text \<open>
  \<^verbatim>\<open>advance_rulename_helper\<close> returns its flag, the cursor, and the two ends of the name
  (both callers start these at the cursor). It takes no context; \<open>tr\<close> is here, as in
  \<open>repeat_bounds\<close>, only to go with a read at the end position.
\<close>

definition advance_rulename_helper :: "string \<Rightarrow> nat \<Rightarrow> event list \<Rightarrow> fault + (bool \<times> nat \<times> nat \<times> nat)" where
  "advance_rulename_helper s pos tr =
     and_then (deref s pos tr) (\<lambda>c.
       if \<not> is_alpha_char c then Inr (False, pos, pos, pos)
       else
         (let first_pos = pos;
              p = skip_chars (\<lambda>c. is_alpha_char c \<or> is_digit_char c \<or> c = CHR ''-'') s (Suc pos)
          in Inr (fst (compare_and_assign pos p), snd (compare_and_assign pos p), first_pos, p)))"

definition advance_rulename :: "string \<Rightarrow> observer \<Rightarrow> nat \<Rightarrow> event list \<Rightarrow> fault + advance" where
  "advance_rulename s ctx pos tr =
     (if \<not> pos < length s then Inr (False, pos, tr)
      else and_then (advance_rulename_helper s pos tr) (\<lambda>(ok, pos, rulename_first, rulename_last).
        if \<not> ok then Inr (False, pos, tr)
        else
          (let (success, tr) = notify ctx tr (rulename rulename_first rulename_last)
           in Inr (success, pos, tr))))"

text \<open>\<^verbatim>\<open>advance_defined_as\<close> returns its flag, the cursor and \<^verbatim>\<open>is_incremental_alternatives\<close>.\<close>

definition advance_defined_as :: "string \<Rightarrow> nat \<Rightarrow> bool \<times> nat \<times> bool" where
  "advance_defined_as s pos =
     (if \<not> pos < length s then (False, pos, False)
      else
        (let p = skip_comment_whitespace s pos
         in if \<not> p < length s then (False, pos, False)
            else if s ! p = CHR ''='' then
              (let p = Suc p;
                   incremental = (p < length s \<and> s ! p = CHR ''/'');
                   p = (if incremental then Suc p else p);
                   p = skip_comment_whitespace s p
               in (fst (compare_and_assign pos p), snd (compare_and_assign pos p), incremental))
            else (False, pos, False)))"

subsection \<open>The repetition driver\<close>

text \<open>
  Modelled from the spec: \<^verbatim>\<open>advance_repetition_by_range\<close>, \<^verbatim>\<open>make_range\<close> and
  \<^verbatim>\<open>unlimited_range\<close> of \<^verbatim>\<open>generator.hpp\<close> (not among the sources). The driver applies
  the sub-parser to the cursor again and again and counts the successful applications, up to
  the upper bound; it succeeds when the count reaches the lower bound, and otherwise leaves
  the caller's cursor where it was. A range with the lower bound above the upper one fails
  at once. The upper bound of \<^verbatim>\<open>make_range(n)\<close> and of \<^verbatim>\<open>unlimited_range()\<close> is
  \<^verbatim>\<open>INT_MAX\<close>. The sub-parser works on a state \<open>'st\<close> besides the cursor.
\<close>

definition INT_MAX :: int where
  "INT_MAX = 2147483647"

definition unlimited_range :: "int \<times> int" where
  "unlimited_range = (0, INT_MAX)"

definition make_range :: "int \<Rightarrow> int \<times> int" where
  "make_range low = (low, INT_MAX)"

function repeat_op ::
  "(nat \<Rightarrow> 'st \<Rightarrow> fault + (bool \<times> nat \<times> 'st)) \<Rightarrow> int \<Rightarrow> int \<Rightarrow> nat \<Rightarrow> 'st \<Rightarrow> fault + (int \<times> nat \<times> 'st)" where
  "repeat_op op high applied p st =
     (if applied < high then
        (case op p st of
           Inl e \<Rightarrow> Inl e
         | Inr (ok, p', st') \<Rightarrow> if ok then repeat_op op high (applied + 1) p' st' else Inr (applied, p', st'))
      else Inr (applied, p, st))"
  by pat_completeness auto
termination
  by (relation "measure (\<lambda>(op, high, applied, p, st). nat (high - applied))") auto

declare repeat_op.simps [simp del]

definition advance_repetition_by_range ::
  "int \<times> int \<Rightarrow> (nat \<Rightarrow> 'st \<Rightarrow> fault + (bool \<times> nat \<times> 'st)) \<Rightarrow> nat \<Rightarrow> 'st \<Rightarrow> fault + (bool \<times> nat \<times> 'st)" where
  "advance_repetition_by_range bounds op pos st =
     (if fst bounds > snd bounds then Inr (False, pos, st)
      else and_then (repeat_op op (snd bounds) 0 pos st) (\<lambda>(applied, p, st).
        if fst bounds \<le> applied then Inr (True, p, st) else Inr (False, pos, st)))"

text \<open>\<^verbatim>\<open>success = success && advance(pos, last, ctx)\<close>: the advancer runs only when \<open>success\<close> holds.\<close>

definition and_also :: "bool \<Rightarrow> fault + advance \<Rightarrow> nat \<Rightarrow> event list \<Rightarrow> fault + advance" where
  "and_also success m pos tr = (if success then m else Inr (False, pos, tr))"

text \<open>\<^verbatim>\<open>success = ctx.end_callback(success) && success; return success;\<close>\<close>

definition close_with :: "observer \<Rightarrow> (bool \<Rightarrow> event) \<Rightarrow> advance \<Rightarrow> fault + advance" where
  "close_with ctx end_event r =
     (case r of (success, pos, tr) \<Rightarrow>
        Inr (fst (notify ctx tr (end_event success)) \<and> success, pos, snd (notify ctx tr (end_event success))))"

subsection \<open>The recursive advancers\<close>

text \<open>
  \<^verbatim>\<open>advance_element\<close>, \<^verbatim>\<open>advance_repetition\<close>, \<^verbatim>\<open>advance_concatenation\<close>,
  \<^verbatim>\<open>advance_alternation\<close>, \<^verbatim>\<open>advance_group_or_option\<close>, \<^verbatim>\<open>advance_group\<close> and
  \<^verbatim>\<open>advance_option\<close> call one another. Each is written first with the advancers it
  calls as parameters (\<open>element_body\<close>, ...), in the order and with the tests of the
  source; the knot is tied below by recursion on a bound for the depth of the calls.
  \<open>concatenation_next\<close> and \<open>alternation_next\<close> are the lambdas that
  \<^verbatim>\<open>advance_concatenation\<close> and \<^verbatim>\<open>advance_alternation\<close> hand to the driver.
\<close>

type_synonym advancer = "string \<Rightarrow> observer \<Rightarrow> nat \<Rightarrow> event list \<Rightarrow> fault + advance"

definition element_body :: "advancer \<Rightarrow> advancer \<Rightarrow> advancer" where
  "element_body call_group call_option s ctx pos tr =
     (if \<not> pos < length s then Inr (False, pos, tr)
      else or_else (advance_rulename s ctx pos tr) (\<lambda>pos tr.
           or_else (call_group s ctx pos tr) (\<lambda>pos tr.
           or_else (call_option s ctx pos tr) (\<lambda>pos tr.
           or_else (advance_number s ctx pos tr) (\<lambda>pos tr.
           or_else (advance_quoted_string s ctx pos tr) (\<lambda>pos tr.
           advance_prose s ctx pos tr))))))"

definition repetition_body :: "advancer \<Rightarrow> advancer" where
  "repetition_body call_element s ctx pos tr =
     (if \<not> pos < length s then Inr (False, pos, tr)
      else
        (let (success, tr) = notify ctx tr begin_repetition
         in and_then (advance_repeat s ctx pos tr) (\<lambda>(ignored, pos, tr).
            and_then (and_also success (call_element s ctx pos tr) pos tr)
              (close_with ctx end_repetition))))"

definition concatenation_next_body :: "advancer \<Rightarrow> advancer" where
  "concatenation_next_body call_repetition s ctx pos tr =
     and_then (advance_repetition_by_range (make_range 1)
                 (\<lambda>pos tr. Inr (fst (advance_comment_whitespace s pos), snd (advance_comment_whitespace s pos), tr))
                 pos tr) (\<lambda>(ok, p, tr).
       if \<not> ok then Inr (False, pos, tr)
       else and_then (call_repetition s ctx p tr) (\<lambda>(ok, p, tr).
         if \<not> ok then Inr (False, pos, tr)
         else Inr (fst (compare_and_assign pos p), snd (compare_and_assign pos p), tr)))"

definition concatenation_body :: "advancer \<Rightarrow> advancer \<Rightarrow> advancer" where
  "concatenation_body call_repetition call_next s ctx pos tr =
     (if \<not> pos < length s then Inr (False, pos, tr)
      else
        (let (success, tr) = notify ctx tr begin_concatenation
         in and_then (and_also success (call_repetition s ctx pos tr) pos tr) (\<lambda>(success, pos, tr).
            and_then (and_also success
                        (advance_repetition_by_range unlimited_range (call_next s ctx) pos tr) pos tr)
              (close_with ctx end_concatenation))))"

definition alternation_next_body :: "advancer \<Rightarrow> advancer" where
  "alternation_next_body call_concatenation s ctx pos tr =
     (let p = skip_comment_whitespace s pos
      in if \<not> p < length s then Inr (False, pos, tr)
         else and_then (deref s p tr) (\<lambda>c.
           if c \<noteq> CHR ''/'' then Inr (False, pos, tr)
           else
             (let p = Suc p
              in if \<not> p < length s then Inr (False, pos, tr)
                 else
                   (let p = skip_comment_whitespace s p
                    in and_then (call_concatenation s ctx p tr) (\<lambda>(ok, p, tr).
                         if \<not> ok then Inr (False, pos, tr)
                         else Inr (fst (compare_and_assign pos p), snd (compare_and_assign pos p), tr))))))"

definition alternation_body :: "advancer \<Rightarrow> advancer \<Rightarrow> advancer" where
  "alternation_body call_concatenation call_next s ctx pos tr =
     (if \<not> pos < length s then Inr (False, pos, tr)
      else
        (let (success, tr) = notify ctx tr begin_alternation
         in and_then (and_also success (call_concatenation s ctx pos tr) pos tr) (\<lambda>(success, pos, tr).
            and_then (and_also success
                        (advance_repetition_by_range unlimited_range (call_next s ctx) pos tr) pos tr)
              (close_with ctx end_alternation))))"

definition group_or_option_body :: "advancer \<Rightarrow> advancer" where
  "group_or_option_body call_alternation s ctx pos tr =
     (if \<not> pos < length s then Inr (False, pos, tr)
      else and_then (deref s pos tr) (\<lambda>c.
        if c \<noteq> CHR ''('' \<and> c \<noteq> CHR ''['' then Inr (False, pos, tr)
        else
          (let closing_bracket = (if c = CHR ''('' then CHR '')'' else CHR '']'');
               p = skip_comment_whitespace s (Suc pos)
           in if \<not> p < length s then Inr (False, pos, tr)
              else and_then (call_alternation s ctx p tr) (\<lambda>(ok, p, tr).
                if \<not> ok then Inr (False, pos, tr)
                else
                  (let p = skip_comment_whitespace s p
                   in and_then (deref s p tr) (\<lambda>c.
                        if c \<noteq> closing_bracket then Inr (False, pos, tr)
                        else Inr (fst (compare_and_assign pos (Suc p)), snd (compare_and_assign pos (Suc p)), tr)))))))"

definition group_body :: "advancer \<Rightarrow> advancer" where
  "group_body call_group_or_option s ctx pos tr =
     (if \<not> pos < length s then Inr (False, pos, tr)
      else and_then (deref s pos tr) (\<lambda>c.
        if c \<noteq> CHR ''('' then Inr (False, pos, tr)
        else
          (let (success, tr) = notify ctx tr begin_group
           in and_then (and_also success (call_group_or_option s ctx pos tr) pos tr)
                (close_with ctx end_group))))"

definition option_body :: "advancer \<Rightarrow> advancer" where
  "option_body call_group_or_option s ctx pos tr =
     (if \<not> pos < length s then Inr (False, pos, tr)
      else and_then (deref s pos tr) (\<lambda>c.
        if c \<noteq> CHR ''['' then Inr (False, pos, tr)
        else
          (let (success, tr) = notify ctx tr begin_option
           in and_then (and_also success (call_group_or_option s ctx pos tr) pos tr)
                (close_with ctx end_option))))"

text \<open>
  The recursion. The first argument bounds the depth of the calls among these advancers:
  every call passes one less, and at 0 the result is \<open>fuel_exhausted\<close>. The loops do not
  use it up.
\<close>

datatype production =
    Element | Repetition | Concatenation_next | Concatenation | Alternation_next | Alternation
  | Group_or_option | Group | Option

primrec advance :: "nat \<Rightarrow> production \<Rightarrow> advancer" where
  "advance 0 k = (\<lambda>s ctx pos tr. Inl fuel_exhausted)"
| "advance (Suc n) k =
     (case k of
        Element \<Rightarrow> element_body (advance n Group) (advance n Option)
      | Repetition \<Rightarrow> repetition_body (advance n Element)
      | Concatenation_next \<Rightarrow> concatenation_next_body (advance n Repetition)
      | Concatenation \<Rightarrow> concatenation_body (advance n Repetition) (advance n Concatenation_next)
      | Alternation_next \<Rightarrow> alternation_next_body (advance n Concatenation)
      | Alternation \<Rightarrow> alternation_body (advance n Concatenation) (advance n Alternation_next)
      | Group_or_option \<Rightarrow> group_or_option_body (advance n Alternation)
      | Group \<Rightarrow> group_body (advance n Group_or_option)
      | Option \<Rightarrow> option_body (advance n Group_or_option))"

definition advance_element :: "nat \<Rightarrow> advancer" where
  "advance_element n = advance n Element"

definition advance_repetition :: "nat \<Rightarrow> advancer" where
  "advance_repetition n = advance n Repetition"

definition concatenation_next :: "nat \<Rightarrow> advancer" where
  "concatenation_next n = advance n Concatenation_next"

definition advance_concatenation :: "nat \<Rightarrow> advancer" where
  "advance_concatenation n = advance n Concatenation"

definition alternation_next :: "nat \<Rightarrow> advancer" where
  "alternation_next n = advance n Alternation_next"

definition advance_alternation :: "nat \<Rightarrow> advancer" where
  "advance_alternation n = advance n Alternation"

definition advance_group_or_option :: "nat \<Rightarrow> advancer" where
  "advance_group_or_option n = advance n Group_or_option"

definition advance_group :: "nat \<Rightarrow> advancer" where
  "advance_group n = advance n Group"

definition advance_option :: "nat \<Rightarrow> advancer" where
  "advance_option n = advance n Option"

subsection \<open>Rules and the rule list\<close>

definition advance_elements :: "nat \<Rightarrow> string \<Rightarrow> observer \<Rightarrow> nat \<Rightarrow> event list \<Rightarrow> fault + advance" where
  "advance_elements n s ctx pos tr =
     and_then (advance_alternation n s ctx pos tr) (\<lambda>(ok, p, tr).
       if \<not> ok then Inr (False, pos, tr)
       else
         (let p = skip_comment_whitespace s p
          in Inr (fst (compare_and_assign pos p), snd (compare_and_assign pos p), tr)))"

definition advance_rule :: "nat \<Rightarrow> string \<Rightarrow> observer \<Rightarrow> nat \<Rightarrow> event list \<Rightarrow> fault + advance" where
  "advance_rule n s ctx pos tr =
     (if \<not> pos < length s then Inr (False, pos, tr)
      else and_then (advance_rulename_helper s pos tr) (\<lambda>(ok, p, rulename_first, rulename_last).
        if \<not> ok then Inr (False, pos, tr)
        else
          (case advance_defined_as s p of (ok, p, is_incremental_alternatives) \<Rightarrow>
             if \<not> ok then Inr (False, pos, tr)
             else
               (let (success, tr) =
                      notify ctx tr (begin_rule rulename_first rulename_last is_incremental_alternatives)
                in and_then (and_also success (advance_elements n s ctx p tr) p tr) (\<lambda>(success, p, tr).
                     let (success, p) =
                           (if p < length s
                            then (if success then advance_comment_newline s p else (False, p))
                            else (success, p));
                         p = (if success then skip_linear_whitespace s p else p);
                         (accepted, tr) =
                           notify ctx tr
                             (end_rule rulename_first rulename_last is_incremental_alternatives success)
                     in finish (accepted \<and> success) pos p tr)))))"

text \<open>The lambda that \<^verbatim>\<open>advance_rulelist\<close> hands to the driver.\<close>

definition rulelist_next :: "nat \<Rightarrow> string \<Rightarrow> observer \<Rightarrow> nat \<Rightarrow> event list \<Rightarrow> fault + advance" where
  "rulelist_next n s ctx pos tr =
     and_then (advance_rule n s ctx pos tr) (\<lambda>(ok, p, tr).
       if ok then Inr (fst (compare_and_assign pos p), snd (compare_and_assign pos p), tr)
       else
         (let p = skip_comment_whitespace s p
          in if p < length s then
               (if \<not> fst (advance_comment_newline s p) then Inr (False, pos, tr)
                else
                  (let p = snd (advance_comment_newline s p)
                   in Inr (fst (compare_and_assign pos p), snd (compare_and_assign pos p), tr)))
             else Inr (fst (compare_and_assign pos p), snd (compare_and_assign pos p), tr)))"

definition advance_rulelist :: "nat \<Rightarrow> string \<Rightarrow> observer \<Rightarrow> nat \<Rightarrow> event list \<Rightarrow> fault + advance" where
  "advance_rulelist n s ctx pos tr =
     (let (success, tr) = notify ctx tr begin_document
      in and_then (and_also success
                     (advance_repetition_by_range (make_range 1) (rulelist_next n s ctx) pos tr) pos tr)
           (close_with ctx end_document))"

text \<open>An observer that accepts every callback and sets no limit on quoted strings.\<close>

definition accept_all :: observer where
  "accept_all = \<lparr>answer = (\<lambda>tr ev. True), max_quoted_string_length = (\<lambda>tr. 0)\<rparr>"

text \<open>An observer that accepts every callback and limits quoted strings to \<open>limit\<close> characters.\<close>

definition accept_up_to :: "nat \<Rightarrow> observer" where
  "accept_up_to limit = \<lparr>answer = (\<lambda>tr ev. True), max_quoted_string_length = (\<lambda>tr. limit)\<rparr>"

text \<open>An observer that rejects \<open>first_number\<close> and accepts every other callback.\<close>

definition reject_first_number :: observer where
  "reject_first_number =
     \<lparr>answer = (\<lambda>tr ev. case ev of first_number flag b e \<Rightarrow> False | _ \<Rightarrow> True),
      max_quoted_string_length = (\<lambda>tr. 0)\<rparr>"

subsection \<open>Reading a result\<close>

text \<open>The flag a call returned, and the codes of the errors it reported, in order.\<close>

definition returned :: "fault + advance \<Rightarrow> bool option" where
  "returned r = (case r of Inl e \<Rightarrow> None | Inr (ok, pos, tr) \<Rightarrow> Some ok)"

fun error_codes :: "event list \<Rightarrow> errc list" where
  "error_codes [] = []"
| "error_codes (error ec near_pos # evs) = ec # error_codes evs"
| "error_codes (ev # evs) = error_codes evs"

definition reported :: "fault + advance \<Rightarrow> errc list" where
  "reported r = (case r of Inl e \<Rightarrow> [] | Inr (ok, pos, tr) \<Rightarrow> error_codes tr)"

subsection \<open>A dotted sequence of numbers\<close>

text \<open>
  The text of the runs \<open>rs\<close>, each after a dot; the position after them, from the position
  \<open>p\<close> of the first dot; and the callbacks \<open>next_number\<close> for them, one for each run, with
  the span of its digits.
\<close>

fun next_numbers :: "number_flag \<Rightarrow> nat \<Rightarrow> string list \<Rightarrow> event list" where
  "next_numbers flag p [] = []"
| "next_numbers flag p (r # rs) =
     next_number flag (Suc p) (Suc p + length r) # next_numbers flag (Suc p + length r) rs"

fun runs_end :: "nat \<Rightarrow> string list \<Rightarrow> nat" where
  "runs_end p [] = p"
| "runs_end p (r # rs) = runs_end (Suc p + length r) rs"

definition dotted :: "string list \<Rightarrow> string" where
  "dotted rs = concat (map (\<lambda>r. CHR ''.'' # r) rs)"

subsection \<open>Brackets of callbacks\<close>

text \<open>
  The begin callbacks and the end callbacks, each with what it brackets; a rule is named by
  the span of its name and its flag, which both of its callbacks carry.
\<close>

datatype bracket =
    in_document | in_rule nat nat bool | in_alternation | in_concatenation | in_repetition
  | in_group | in_option

fun begins :: "event \<Rightarrow> bracket option" where
  "begins begin_document = Some in_document"
| "begins (begin_rule rulename_first rulename_last incremental) =
     Some (in_rule rulename_first rulename_last incremental)"
| "begins begin_alternation = Some in_alternation"
| "begins begin_concatenation = Some in_concatenation"
| "begins begin_repetition = Some in_repetition"
| "begins begin_group = Some in_group"
| "begins begin_option = Some in_option"
| "begins ev = None"

fun ends :: "event \<Rightarrow> bracket option" where
  "ends (end_document success) = Some in_document"
| "ends (end_rule rulename_first rulename_last incremental success) =
     Some (in_rule rulename_first rulename_last incremental)"
| "ends (end_alternation success) = Some in_alternation"
| "ends (end_concatenation success) = Some in_concatenation"
| "ends (end_repetition success) = Some in_repetition"
| "ends (end_group success) = Some in_group"
| "ends (end_option success) = Some in_option"
| "ends ev = None"

text \<open>
  A list of callbacks nests when every end callback closes the begin callback opened last
  and still open, and none is left open; \<open>nested\<close> carries the open brackets, innermost
  first. Other callbacks may stand anywhere.
\<close>

fun nested :: "bracket list \<Rightarrow> event list \<Rightarrow> bool" where
  "nested open_brackets [] = (open_brackets = [])"
| "nested open_brackets (ev # evs) =
     (case begins ev of
        Some b \<Rightarrow> nested (b # open_brackets) evs
      | None \<Rightarrow>
          (case ends ev of
             None \<Rightarrow> nested open_brackets evs
           | Some b \<Rightarrow>
               (case open_brackets of
                  [] \<Rightarrow> False
                | innermost # others \<Rightarrow> innermost = b \<and> nested others evs)))"

definition balanced :: "event list \<Rightarrow> bool" where
  "balanced evs = nested [] evs"

text \<open>The brackets that a list of callbacks begins, and those it ends, in order.\<close>

definition begun :: "event list \<Rightarrow> bracket list" where
  "begun evs = List.map_filter begins evs"

definition ended :: "event list \<Rightarrow> bracket list" where
  "ended evs = List.map_filter ends evs"

text \<open>
  What a call adds to the callbacks \<open>tr\<close> made before it: a list that nests, with as many
  begin callbacks as end callbacks of every kind.
\<close>

definition well_bracketed :: "event list \<Rightarrow> event list \<Rightarrow> bool" where
  "well_bracketed tr tr' =
     (\<exists>evs. tr' = tr @ evs \<and> balanced evs \<and> mset (begun evs) = mset (ended evs))"

text \<open>
  What a bracketing call adds: its begin callback, a list that nests, and its end callback,
  whose flag \<open>success\<close> is such that the call returns true exactly when the flag is true
  and the observer accepts the end callback.
\<close>

definition framed :: "observer \<Rightarrow> event \<Rightarrow> (bool \<Rightarrow> event) \<Rightarrow> event list \<Rightarrow> bool \<Rightarrow> event list \<Rightarrow> bool" where
  "framed ctx b end_event tr ok tr' =
     (\<exists>mid success. tr' = tr @ b # mid @ [end_event success] \<and> balanced mid
        \<and> ok = (success \<and> answer ctx (tr @ b # mid) (end_event success)))"

text \<open>
  The brackets that a list of callbacks leaves open, innermost first, when every end
  callback in it closes the begin callback opened last and still open; \<open>None\<close> when one
  does not. \<open>unclosed\<close> starts from the brackets that are open already.
\<close>

fun unclosed :: "bracket list \<Rightarrow> event list \<Rightarrow> bracket list option" where
  "unclosed open_brackets [] = Some open_brackets"
| "unclosed open_brackets (ev # evs) =
     (case begins ev of
        Some b \<Rightarrow> unclosed (b # open_brackets) evs
      | None \<Rightarrow>
          (case ends ev of
             None \<Rightarrow> unclosed open_brackets evs
           | Some b \<Rightarrow>
               (case open_brackets of
                  [] \<Rightarrow> None
                | innermost # others \<Rightarrow> if innermost = b then unclosed others evs else None)))"

text \<open>
  What a call that is cut short has added to the callbacks \<open>tr\<close> made before it: a list in
  which every end callback closes the begin callback opened last, and which may leave begin
  callbacks open.
\<close>

definition interrupted :: "event list \<Rightarrow> event list \<Rightarrow> bool" where
  "interrupted tr t = (\<exists>evs. t = tr @ evs \<and> unclosed [] evs \<noteq> None)"

subsection \<open>Properties of results\<close>

text \<open>
  \<open>post m Q\<close>: if the call \<open>m\<close> returns, its result satisfies \<open>Q\<close>. \<open>grows\<close>: the
  callbacks were extended by a list that nests. \<open>progress\<close>: the cursor did not move back
  and the callbacks grew. An advancer is \<open>steady\<close> when all its calls make progress.
  \<open>brackets\<close>: the call made no callback and returned false, or what it added is framed.
\<close>

definition post :: "fault + 'a \<Rightarrow> ('a \<Rightarrow> bool) \<Rightarrow> bool" where
  "post m Q = (case m of Inl e \<Rightarrow> True | Inr x \<Rightarrow> Q x)"

definition grows :: "event list \<Rightarrow> event list \<Rightarrow> bool" where
  "grows tr tr' = (\<exists>evs. tr' = tr @ evs \<and> balanced evs)"

definition progress :: "nat \<Rightarrow> event list \<Rightarrow> advance \<Rightarrow> bool" where
  "progress pos tr r = (case r of (ok, pos', tr') \<Rightarrow> pos \<le> pos' \<and> grows tr tr')"

definition steady :: "advancer \<Rightarrow> bool" where
  "steady f = (\<forall>s ctx pos tr. post (f s ctx pos tr) (progress pos tr))"

definition brackets :: "observer \<Rightarrow> event \<Rightarrow> (bool \<Rightarrow> event) \<Rightarrow> event list \<Rightarrow> advance \<Rightarrow> bool" where
  "brackets ctx b end_event tr r =
     (case r of (ok, pos, tr') \<Rightarrow> (tr' = tr \<and> \<not> ok) \<or> framed ctx b end_event tr ok tr')"

text \<open>
  \<open>on_fault m F\<close>: if the call \<open>m\<close> reads at the end position, the callbacks made up to the
  read satisfy \<open>F\<close>. An advancer is \<open>careful\<close> when the callbacks of each of its calls that
  reads at the end position are an interrupted extension of those made before the call.
\<close>

definition on_fault :: "fault + 'a \<Rightarrow> (event list \<Rightarrow> bool) \<Rightarrow> bool" where
  "on_fault m F = (case m of Inl (end_dereferenced t) \<Rightarrow> F t | _ \<Rightarrow> True)"

definition careful :: "advancer \<Rightarrow> bool" where
  "careful f = (\<forall>s ctx pos tr. on_fault (f s ctx pos tr) (interrupted tr))"

text \<open>
  A result other than running out of recursion depth; an advancer that gives such results
  wherever at most \<open>r\<close> characters remain; and the depth each production needs on top of
  eight levels for every character that remains.
\<close>

definition alive :: "fault + 'a \<Rightarrow> bool" where
  "alive m = (m \<noteq> Inl fuel_exhausted)"

definition lively :: "string \<Rightarrow> nat \<Rightarrow> advancer \<Rightarrow> bool" where
  "lively s r f = (\<forall>ctx pos tr. length s - pos \<le> r \<longrightarrow> alive (f s ctx pos tr))"

primrec need :: "production \<Rightarrow> nat" where
  "need Group_or_option = 1"
| "need Group = 2"
| "need Option = 2"
| "need Element = 3"
| "need Repetition = 4"
| "need Concatenation_next = 5"
| "need Concatenation = 6"
| "need Alternation_next = 7"
| "need Alternation = 8"

subsection \<open>The equations of the recursive advancers\<close>

lemma advance_0:
  "advance_element 0 s ctx pos tr = Inl fuel_exhausted"
  "advance_repetition 0 s ctx pos tr = Inl fuel_exhausted"
  "concatenation_next 0 s ctx pos tr = Inl fuel_exhausted"
  "advance_concatenation 0 s ctx pos tr = Inl fuel_exhausted"
  "alternation_next 0 s ctx pos tr = Inl fuel_exhausted"
  "advance_alternation 0 s ctx pos tr = Inl fuel_exhausted"
  "advance_group_or_option 0 s ctx pos tr = Inl fuel_exhausted"
  "advance_group 0 s ctx pos tr = Inl fuel_exhausted"
  "advance_option 0 s ctx pos tr = Inl fuel_exhausted"
  by (simp_all add: advance_element_def advance_repetition_def concatenation_next_def
        advance_concatenation_def alternation_next_def advance_alternation_def
        advance_group_or_option_def advance_group_def advance_option_def)

lemma advance_Suc:
  "advance_element (Suc n) = element_body (advance_group n) (advance_option n)"
  "advance_repetition (Suc n) = repetition_body (advance_element n)"
  "concatenation_next (Suc n) = concatenation_next_body (advance_repetition n)"
  "advance_concatenation (Suc n) = concatenation_body (advance_repetition n) (concatenation_next n)"
  "alternation_next (Suc n) = alternation_next_body (advance_concatenation n)"
  "advance_alternation (Suc n) = alternation_body (advance_concatenation n) (alternation_next n)"
  "advance_group_or_option (Suc n) = group_or_option_body (advance_alternation n)"
  "advance_group (Suc n) = group_body (advance_group_or_option n)"
  "advance_option (Suc n) = option_body (advance_group_or_option n)"
  by (simp_all add: advance_element_def advance_repetition_def concatenation_next_def
        advance_concatenation_def alternation_next_def advance_alternation_def
        advance_group_or_option_def advance_group_def advance_option_def)

subsection \<open>Facts about \<^verbatim>\<open>to_decimal_number\<close>\<close>

lemma cutoff_value_eq: "cutoff_value = 922337203685477580"
  by (simp add: cutoff_value_def c_div_def LONG_MIN_def radix_def wrap_long_def)

lemma cutoff_limit_eq: "cutoff_limit = 8"
  by (simp add: cutoff_limit_def c_rem_def c_div_def LONG_MIN_def radix_def wrap_long_def)

lemma wrap_long_id:
  "- 9223372036854775808 \<le> x \<Longrightarrow> x \<le> 9223372036854775807 \<Longrightarrow> wrap_long x = x"
  by (simp add: wrap_long_def)

lemma code_less_256: "code c < 256"
proof -
  have "(of_char c :: nat) < 256"
    by (rule nat_of_char_less_256)
  then show ?thesis by (simp add: code_def)
qed

lemma digit_of_digit: "is_digit_char c \<Longrightarrow> digit_of c = int (code c) - 48"
  by (simp add: is_digit_char_def digit_of_def)

lemma digit_of_digit_le: "is_digit_char c \<Longrightarrow> digit_of c \<le> 9"
  by (simp add: digit_of_digit) (simp add: is_digit_char_def)

lemma digit_of_digit_ge: "is_digit_char c \<Longrightarrow> 0 \<le> digit_of c"
  by (simp add: digit_of_def)

lemma digit_of_nondigit: "\<not> is_digit_char c \<Longrightarrow> digit_of c > 9"
proof -
  assume nd: "\<not> is_digit_char c"
  have b: "code c < 256" by (rule code_less_256)
  show ?thesis
  proof (cases "code c < 48")
    case True
    have "(int (code c) - 48) mod 4294967296 = (int (code c) - 48 + 4294967296) mod 4294967296"
      by (simp only: mod_add_self2)
    also have "\<dots> = int (code c) - 48 + 4294967296"
      using True by (intro mod_pos_pos_trivial) simp_all
    finally have "digit_of c = int (code c) - 48 + 4294967296"
      by (simp only: digit_of_def)
    then show ?thesis by simp
  next
    case False
    with nd have gt: "57 < code c" by (simp add: is_digit_char_def)
    from False b have "digit_of c = int (code c) - 48"
      by (simp add: digit_of_def)
    with gt show ?thesis by simp
  qed
qed

lemma to_decimal_loop_small:
  "list_all is_digit_char ds \<Longrightarrow> v < 10 ^ k \<Longrightarrow> length ds + k \<le> 18 \<Longrightarrow>
     to_decimal_loop (int v) ds = (int (denoted_from v ds), True)"
proof (induction ds arbitrary: v k)
  case Nil
  then show ?case by simp
next
  case (Cons c cs)
  from Cons.prems have dc: "is_digit_char c" and dcs: "list_all is_digit_char cs"
    by simp_all
  from Cons.prems have k17: "k \<le> 17" by simp
  have "(10::nat) ^ k \<le> 10 ^ 17"
    using k17 by (intro power_increasing) simp_all
  with Cons.prems(2) have v17: "v < 10 ^ 17" by simp
  then have vlt: "v < 100000000000000000" by simp
  define d where "d = code c - 48"
  have deq: "digit_of c = int d"
    using dc by (simp add: digit_of_digit d_def is_digit_char_def)
  have d9: "d \<le> 9" using dc unfolding d_def is_digit_char_def by arith
  have nb: "\<not> 9 < digit_of c" using deq d9 by simp
  have below: "int v < cutoff_value"
    using vlt by (simp add: cutoff_value_eq)
  have w1: "wrap_long (int v * radix) = int v * 10"
    using vlt by (simp add: radix_def wrap_long_id)
  have w2: "wrap_long (int v * 10 + int d) = int (10 * v + d)"
    using vlt d9 by (simp add: wrap_long_id)
  have "10 * v + d < 10 * 10 ^ k"
    using Cons.prems(2) d9 by simp
  then have next_lt: "10 * v + d < 10 ^ Suc k" by simp
  have len: "length cs + Suc k \<le> 18" using Cons.prems(3) by simp
  have "to_decimal_loop (int v) (c # cs) = to_decimal_loop (int (10 * v + d)) cs"
    using nb below by (simp add: w1 deq w2)
  also have "\<dots> = (int (denoted_from (10 * v + d) cs), True)"
    using dcs next_lt len by (rule Cons.IH)
  finally show ?case by (simp add: d_def)
qed

lemma denoted_from_ge: "v \<le> denoted_from v cs"
proof (induction cs arbitrary: v)
  case Nil
  show ?case by simp
next
  case (Cons c cs)
  have "10 * v + (code c - 48) \<le> denoted_from (10 * v + (code c - 48)) cs" by (rule Cons.IH)
  then show ?case by simp
qed

lemma denoted_from_more: "cs \<noteq> [] \<Longrightarrow> 10 * v \<le> denoted_from v cs"
proof (cases cs)
  case Nil
  then show "cs \<noteq> [] \<Longrightarrow> 10 * v \<le> denoted_from v cs" by simp
next
  case (Cons c cs')
  have "10 * v + (code c - 48) \<le> denoted_from (10 * v + (code c - 48)) cs'"
    by (rule denoted_from_ge)
  with Cons show ?thesis by simp
qed

text \<open>
  One step of the loop on a digit, from a value below \<open>LONG_MAX + 1\<close>: the guard lets the
  digit through exactly when the new value is at most \<open>LONG_MAX + 1\<close>.
\<close>

lemma digit_step:
  assumes dc: "is_digit_char c" and v: "int v < 9223372036854775808"
  defines "v' \<equiv> 10 * v + (code c - 48)"
  shows "\<not> digit_of c > 9"
    and "(int v < cutoff_value \<or> (int v = cutoff_value \<and> digit_of c \<le> cutoff_limit))
           = (int v' \<le> 9223372036854775808)"
    and "int v' \<le> 9223372036854775808 \<Longrightarrow>
           wrap_long (wrap_long (int v * radix) + digit_of c) = wrap_long (int v')"
proof -
  define d where "d = code c - 48"
  have deq: "digit_of c = int d"
    using dc by (simp add: digit_of_digit d_def is_digit_char_def)
  have d9: "d \<le> 9" using dc unfolding d_def is_digit_char_def by arith
  have v': "int v' = 10 * int v + int d" by (simp add: v'_def d_def)
  show "\<not> digit_of c > 9" using deq d9 by simp
  show "(int v < cutoff_value \<or> (int v = cutoff_value \<and> digit_of c \<le> cutoff_limit))
           = (int v' \<le> 9223372036854775808)"
    unfolding cutoff_value_eq cutoff_limit_eq deq v' using d9 by arith
  assume "int v' \<le> 9223372036854775808"
  then have "10 * int v \<le> 9223372036854775808" unfolding v' by simp
  moreover have "10 * int v \<noteq> 9223372036854775808" by presburger
  ultimately have "int v * 10 \<le> 9223372036854775807" by simp
  moreover have "- 9223372036854775808 \<le> int v * 10" by simp
  ultimately have "wrap_long (int v * 10) = int v * 10" by (intro wrap_long_id)
  then have "wrap_long (int v * radix) = int v * 10"
    by (simp add: radix_def)
  then show "wrap_long (wrap_long (int v * radix) + digit_of c) = wrap_long (int v')"
    by (simp add: deq v' mult.commute)
qed

lemma to_decimal_loop_exact:
  "list_all is_digit_char ds \<Longrightarrow> int v < 9223372036854775808 \<Longrightarrow>
     int (denoted_from v ds) \<le> 9223372036854775808 \<Longrightarrow>
     to_decimal_loop (int v) (ds @ rest) = to_decimal_loop (wrap_long (int (denoted_from v ds))) rest"
proof (induction ds arbitrary: v)
  case Nil
  then show ?case by (simp add: wrap_long_id)
next
  case (Cons c cs)
  from Cons.prems have dc: "is_digit_char c" and dcs: "list_all is_digit_char cs" by simp_all
  let ?v = "10 * v + (code c - 48)"
  have "?v \<le> denoted_from ?v cs" by (rule denoted_from_ge)
  with Cons.prems(3) have le: "int ?v \<le> 9223372036854775808" by simp
  note step = digit_step [OF dc Cons.prems(2)]
  have unfold: "to_decimal_loop (int v) ((c # cs) @ rest) = to_decimal_loop (wrap_long (int ?v)) (cs @ rest)"
    using step(1) step(2) step(3) [OF le] le by simp
  show ?case
  proof (cases "int ?v < 9223372036854775808")
    case True
    then have "wrap_long (int ?v) = int ?v" by (simp add: wrap_long_id)
    moreover have "to_decimal_loop (int ?v) (cs @ rest) =
        to_decimal_loop (wrap_long (int (denoted_from ?v cs))) rest"
      using dcs True Cons.prems(3) by (intro Cons.IH) simp_all
    ultimately show ?thesis using unfold by simp
  next
    case False
    with le have eq: "int ?v = 9223372036854775808" by simp
    have "cs = []"
    proof (rule ccontr)
      assume "cs \<noteq> []"
      then have "10 * ?v \<le> denoted_from ?v cs" by (rule denoted_from_more)
      with Cons.prems(3) eq show False by simp
    qed
    with unfold show ?thesis by simp
  qed
qed

text \<open>\<open>values_read\<close> lists what the leading parts of the digits denote.\<close>

lemma length_values_read: "length (values_read v ds) = length ds"
  by (induction ds arbitrary: v) simp_all

lemma values_read_nth:
  "k < length ds \<Longrightarrow> values_read v ds ! k = denoted_from v (take (Suc k) ds)"
proof (induction ds arbitrary: v k)
  case Nil
  then show ?case by simp
next
  case (Cons c cs)
  show ?case
  proof (cases k)
    case 0
    then show ?thesis by simp
  next
    case (Suc j)
    with Cons.prems have "j < length cs" by simp
    then have "values_read (10 * v + (code c - 48)) cs ! j =
        denoted_from (10 * v + (code c - 48)) (take (Suc j) cs)"
      by (rule Cons.IH)
    with Suc show ?thesis by simp
  qed
qed

lemma values_read_leading_parts:
  "w \<in> set (values_read 0 ds) \<longleftrightarrow>
     (\<exists>k. 0 < k \<and> k \<le> length ds \<and> w = denoted_value (take k ds))"
proof
  assume "w \<in> set (values_read 0 ds)"
  then obtain j where j: "j < length ds" and w: "values_read 0 ds ! j = w"
    by (auto simp: in_set_conv_nth length_values_read)
  from j w have "w = denoted_value (take (Suc j) ds)"
    by (simp add: values_read_nth denoted_value_def)
  with j have "0 < Suc j \<and> Suc j \<le> length ds \<and> w = denoted_value (take (Suc j) ds)" by simp
  then show "\<exists>k. 0 < k \<and> k \<le> length ds \<and> w = denoted_value (take k ds)" by blast
next
  assume "\<exists>k. 0 < k \<and> k \<le> length ds \<and> w = denoted_value (take k ds)"
  then obtain k where k: "0 < k" "k \<le> length ds" "w = denoted_value (take k ds)" by blast
  then obtain j where kj: "k = Suc j" by (cases k) auto
  with k have j: "j < length ds" by simp
  then have "values_read 0 ds ! j = w"
    using k(3) kj by (simp add: values_read_nth denoted_value_def)
  moreover from j have "values_read 0 ds ! j \<in> set (values_read 0 ds)"
    by (simp add: length_values_read)
  ultimately show "w \<in> set (values_read 0 ds)" by simp
qed

lemma to_decimal_loop_overflow:
  "list_all is_digit_char ds \<Longrightarrow> int v < 9223372036854775808 \<Longrightarrow>
     9223372036854775808 < int (denoted_from v ds) \<Longrightarrow>
     \<forall>w \<in> set (values_read v ds). int w \<noteq> 9223372036854775808 \<Longrightarrow>
     to_decimal_loop (int v) (ds @ rest) = (LONG_MAX, False)"
proof (induction ds arbitrary: v)
  case Nil
  then show ?case by simp
next
  case (Cons c cs)
  from Cons.prems have dc: "is_digit_char c" and dcs: "list_all is_digit_char cs" by simp_all
  let ?v = "10 * v + (code c - 48)"
  note step = digit_step [OF dc Cons.prems(2)]
  from Cons.prems(4) have ne: "int ?v \<noteq> 9223372036854775808"
    and rest: "\<forall>w \<in> set (values_read ?v cs). int w \<noteq> 9223372036854775808" by simp_all
  show ?case
  proof (cases "int ?v < 9223372036854775808")
    case True
    then have le: "int ?v \<le> 9223372036854775808" by simp
    have "to_decimal_loop (int v) ((c # cs) @ rest) = to_decimal_loop (wrap_long (int ?v)) (cs @ rest)"
      using step(1) step(2) step(3) [OF le] le by simp
    also have "wrap_long (int ?v) = int ?v" using True by (simp add: wrap_long_id)
    also have "to_decimal_loop (int ?v) (cs @ rest) = (LONG_MAX, False)"
      using dcs True Cons.prems(3) rest by (intro Cons.IH) simp_all
    finally show ?thesis .
  next
    case False
    with ne have "\<not> int ?v \<le> 9223372036854775808" by simp
    with step(2) have g: "\<not> (int v < cutoff_value \<or> (int v = cutoff_value \<and> digit_of c \<le> cutoff_limit))"
      by simp
    show ?thesis
      using step(1) g by (simp only: append_Cons to_decimal_loop.simps if_False)
  qed
qed

text \<open>
  After the value \<open>LONG_MAX + 1\<close> the accumulator is \<open>LONG_MIN\<close>, and ten times that wraps
  around to 0: the loop goes on as from the start.
\<close>

lemma to_decimal_loop_restart:
  "to_decimal_loop LONG_MIN (c # cs) = to_decimal_loop 0 (c # cs)"
  by (simp add: LONG_MIN_def cutoff_value_eq radix_def wrap_long_def)


subsection \<open>Evaluation\<close>

text \<open>The same equations at a numeral, and the definitions that evaluate a call on a given input.\<close>

lemma advance_numeral:
  "advance_element (numeral k) = element_body (advance_group (pred_numeral k)) (advance_option (pred_numeral k))"
  "advance_repetition (numeral k) = repetition_body (advance_element (pred_numeral k))"
  "concatenation_next (numeral k) = concatenation_next_body (advance_repetition (pred_numeral k))"
  "advance_concatenation (numeral k) = concatenation_body (advance_repetition (pred_numeral k)) (concatenation_next (pred_numeral k))"
  "alternation_next (numeral k) = alternation_next_body (advance_concatenation (pred_numeral k))"
  "advance_alternation (numeral k) = alternation_body (advance_concatenation (pred_numeral k)) (alternation_next (pred_numeral k))"
  "advance_group_or_option (numeral k) = group_or_option_body (advance_alternation (pred_numeral k))"
  "advance_group (numeral k) = group_body (advance_group_or_option (pred_numeral k))"
  "advance_option (numeral k) = option_body (advance_group_or_option (pred_numeral k))"
  by (simp_all add: numeral_eq_Suc advance_Suc)

text \<open>A depth of six levels or more.\<close>

lemma six_levels: "6 + n = Suc (Suc (Suc (Suc (Suc (Suc n)))))"
  by simp

lemma small_limit:
  "1 \<le> k \<Longrightarrow> k \<le> 11 \<Longrightarrow>
     k = 1 \<or> k = 2 \<or> k = 3 \<or> k = 4 \<or> k = 5 \<or> k = 6 \<or> k = 7 \<or> k = 8 \<or> k = 9 \<or> k = 10 \<or> k = (11::nat)"
  by arith

lemmas char_class_defs =
  code_def is_alpha_char_def is_digit_char_def is_hexdigit_char_def is_bit_char_def
  is_space_char_def is_whitespace_char_def is_cr_char_def is_lf_char_def is_dquote_char_def
  is_visible_char_def is_prose_value_char_def

lemmas token_defs =
  compare_and_assign_def finish_def skip_chars.simps advance_digit_chars_def
  advance_hexdigit_chars_def advance_bit_chars_def advance_newline_def
  advance_linear_whitespace_def advance_comment_def advance_comment_newline_def
  advance_comment_whitespace_def skip_comment_whitespace.simps skip_linear_whitespace.simps

lemmas result_defs =
  notify_def and_notify_def deref_def and_then_def or_else_def and_also_def close_with_def
  accept_all_def Let_def

lemmas value_defs =
  advance_prose_def advance_func_def is_digit_func_def number_sequence.simps number_value_def
  advance_number_def SIZE_MAX_def quoted_chars.simps advance_quoted_string_def
  repeat_bounds_def advance_repeat_def advance_rulename_helper_def advance_rulename_def
  advance_defined_as_def

lemmas driver_defs =
  INT_MAX_def unlimited_range_def make_range_def repeat_op.simps advance_repetition_by_range_def

lemmas body_defs =
  element_body_def repetition_body_def concatenation_next_body_def concatenation_body_def
  alternation_next_body_def alternation_body_def group_or_option_body_def group_body_def
  option_body_def advance_0 advance_Suc advance_numeral

lemmas rule_defs = advance_elements_def advance_rule_def rulelist_next_def advance_rulelist_def

lemmas decimal_defs =
  to_decimal_number_def span_def digit_of_def cutoff_value_eq cutoff_limit_eq
  wrap_long_def radix_def LONG_MAX_def LONG_MIN_def

lemma span_whole: "span ds 0 (length ds) = ds"
  by (simp add: span_def)

lemmas to_decimal_eval =
  to_decimal_number_def span_def digit_of_def code_def cutoff_value_eq cutoff_limit_eq
  wrap_long_def radix_def LONG_MAX_def LONG_MIN_def

section \<open>The claims\<close>

subsection \<open>C6: the results of \<^verbatim>\<open>to_decimal_number\<close>\<close>




subsection \<open>C9: overflow at \<open>LONG_MAX + 1\<close>\<close>

text \<open>
  C9 says that every span of digits whose value exceeds \<open>LONG_MAX\<close> is reported as an
  overflow. On the 19 digits of \<open>LONG_MAX + 1\<close> the guard lets the last digit 8 through
  (the cutoff values come from \<open>LONG_MIN\<close>), the accumulation wraps around, and the call
  returns \<open>(LONG_MIN, true)\<close>.
\<close>

theorem to_decimal_number_misses_overflow:
  "to_decimal_number ''9223372036854775808'' 0 19 = (LONG_MIN, True)
   \<and> int (denoted_value ''9223372036854775808'') = LONG_MAX + 1"
  by (simp add: to_decimal_eval denoted_value_def)


subsection \<open>C1: rollback\<close>

text \<open>
  C1 says that an advancer that returns failure without a call of \<open>error\<close> leaves the
  caller's cursor where it was. \<^verbatim>\<open>advance_repetition\<close> hands the caller's cursor to
  \<^verbatim>\<open>advance_repeat\<close> and to \<^verbatim>\<open>advance_element\<close>: on the input \<open>3\<close> the repeat is
  taken, no element follows, and the call returns failure with the cursor moved from 0 to 1
  and no error reported, whatever the bound on the depth.
\<close>

theorem advance_repetition_moves_on_failure:
  "advance_repetition (Suc (Suc n)) ''3'' accept_all 0 [] =
     Inr (False, 1, [begin_repetition, repeat 3 3, end_repetition False])"
  by (simp add: char_class_defs token_defs result_defs value_defs decimal_defs body_defs)

subsection \<open>C2: a bare number as repeat\<close>

text \<open>
  C2 says that a number \<open>N\<close> alone gives \<open>repeat(N, N)\<close>. When the digits are followed
  by another character that is not a star, \<^verbatim>\<open>first_to\<close> and \<^verbatim>\<open>last_to\<close> are still equal
  and the upper bound becomes \<open>LONG_MAX\<close>: on \<open>3DIGIT\<close> the callback is
  \<open>repeat(3, LONG_MAX)\<close>, also within the rule of the spec's example, with every bound
  on the depth from six levels on.
\<close>

theorem advance_repeat_bare_number:
  "advance_repeat ''3DIGIT'' accept_all 0 [] = Inr (True, 1, [repeat 3 LONG_MAX])
   \<and> advance_rulelist (6 + n) (''r = 3DIGIT'' @ [CHR 0x0D, CHR 0x0A]) accept_all 0 [] =
       Inr (True, 12,
         [begin_document, begin_rule 0 1 False, begin_alternation, begin_concatenation,
          begin_repetition, repeat 3 LONG_MAX, rulename 5 10, end_repetition True,
          end_concatenation True, end_alternation True, end_rule 0 1 False True,
          end_document True])"
  unfolding six_levels
  by (simp add: char_class_defs token_defs result_defs value_defs decimal_defs body_defs
        rule_defs driver_defs advance_Suc)

subsection \<open>C4: the comment callback\<close>

text \<open>
  C4 says that a recognized comment is reported by the callback \<open>comment\<close>.
  \<^verbatim>\<open>advance_comment\<close> takes no context; it recognizes the comment \<open>;x\<close> with its newline,
  and the rule list that consists of this comment makes two callbacks only, for the
  beginning and the end of the document, whatever the bound on the depth.
\<close>

theorem advance_comment_makes_no_callback:
  "advance_comment ('';x'' @ [CHR 0x0D, CHR 0x0A]) 0 = (True, 4)
   \<and> advance_rulelist n ('';x'' @ [CHR 0x0D, CHR 0x0A]) accept_all 0 [] =
       Inr (True, 4, [begin_document, end_document True])"
  by (simp add: char_class_defs token_defs result_defs value_defs decimal_defs body_defs
        rule_defs driver_defs)

subsection \<open>C5: a quote left open\<close>

text \<open>
  C5, as amended. The input is the rule \<open>r = "unterminated\<close> followed by CR LF, and the
  observer accepts every callback. When it sets no limit on the length of quoted strings
  (\<^verbatim>\<open>max_quoted_string_length\<close> is 0), or a limit of 12 characters or more,
  \<^verbatim>\<open>advance_rulelist\<close> returns false and the error reported is \<open>bad_quoted_char\<close>, at the
  CR (position 17): the CR is met before the end of the input. Without the CR LF, the input
  ends inside the quoted string and the error is \<open>unbalanced_quote\<close>, at the start of the
  string (position 5). With a limit from 1 to 11 the limit is met first, and the error on
  both inputs is \<open>max_length_exceeded\<close>. All of this holds with every bound on the depth
  from six levels on.
\<close>

theorem unterminated_quote_before_newline:
  assumes accept: "\<forall>tr ev. answer ctx tr ev"
  shows "((\<forall>tr. max_quoted_string_length ctx tr = 0 \<or> 12 \<le> max_quoted_string_length ctx tr) \<longrightarrow>
      advance_rulelist (6 + n) (''r = '' @ [CHR 0x22] @ ''unterminated'' @ [CHR 0x0D, CHR 0x0A]) ctx 0 [] =
        Inr (False, 0,
          [begin_document, begin_rule 0 1 False, begin_alternation, begin_concatenation,
           begin_repetition, error bad_quoted_char 17, end_repetition False,
           end_concatenation False, end_alternation False, end_rule 0 1 False False,
           end_document False])
      \<and> advance_rulelist (6 + n) (''r = '' @ [CHR 0x22] @ ''unterminated'') ctx 0 [] =
        Inr (False, 0,
          [begin_document, begin_rule 0 1 False, begin_alternation, begin_concatenation,
           begin_repetition, error unbalanced_quote 5, end_repetition False,
           end_concatenation False, end_alternation False, end_rule 0 1 False False,
           end_document False]))
   \<and> ((\<forall>tr. 1 \<le> max_quoted_string_length ctx tr \<and> max_quoted_string_length ctx tr \<le> 11) \<longrightarrow>
      advance_rulelist (6 + n) (''r = '' @ [CHR 0x22] @ ''unterminated'' @ [CHR 0x0D, CHR 0x0A]) ctx 0 [] =
        Inr (False, 0,
          [begin_document, begin_rule 0 1 False, begin_alternation, begin_concatenation,
           begin_repetition, error max_length_exceeded 5, end_repetition False,
           end_concatenation False, end_alternation False, end_rule 0 1 False False,
           end_document False])
      \<and> advance_rulelist (6 + n) (''r = '' @ [CHR 0x22] @ ''unterminated'') ctx 0 [] =
        Inr (False, 0,
          [begin_document, begin_rule 0 1 False, begin_alternation, begin_concatenation,
           begin_repetition, error max_length_exceeded 5, end_repetition False,
           end_concatenation False, end_alternation False, end_rule 0 1 False False,
           end_document False]))"
proof (intro conjI impI)
  let ?tr = "[begin_document, begin_rule 0 1 False, begin_alternation, begin_concatenation,
      begin_repetition]"
  let ?k = "max_quoted_string_length ctx ?tr"
  note defs = char_class_defs token_defs notify_def and_notify_def deref_def and_then_def
    or_else_def and_also_def close_with_def Let_def value_defs decimal_defs body_defs
    rule_defs driver_defs advance_Suc
  from accept have a: "answer ctx tr ev" for tr ev by simp
  {
    assume "\<forall>tr. max_quoted_string_length ctx tr = 0 \<or> 12 \<le> max_quoted_string_length ctx tr"
    then have k: "?k = 0 \<or> 12 \<le> ?k" by simp
    show "advance_rulelist (6 + n) (''r = '' @ [CHR 0x22] @ ''unterminated'' @ [CHR 0x0D, CHR 0x0A]) ctx 0 [] =
        Inr (False, 0,
          [begin_document, begin_rule 0 1 False, begin_alternation, begin_concatenation,
           begin_repetition, error bad_quoted_char 17, end_repetition False,
           end_concatenation False, end_alternation False, end_rule 0 1 False False,
           end_document False])"
      unfolding six_levels using k by (auto simp: a defs)
    show "advance_rulelist (6 + n) (''r = '' @ [CHR 0x22] @ ''unterminated'') ctx 0 [] =
        Inr (False, 0,
          [begin_document, begin_rule 0 1 False, begin_alternation, begin_concatenation,
           begin_repetition, error unbalanced_quote 5, end_repetition False,
           end_concatenation False, end_alternation False, end_rule 0 1 False False,
           end_document False])"
      unfolding six_levels using k by (auto simp: a defs)
  }
  {
    assume "\<forall>tr. 1 \<le> max_quoted_string_length ctx tr \<and> max_quoted_string_length ctx tr \<le> 11"
    then have "1 \<le> ?k" "?k \<le> 11" by simp_all
    then have k: "?k = 1 \<or> ?k = 2 \<or> ?k = 3 \<or> ?k = 4 \<or> ?k = 5 \<or> ?k = 6 \<or> ?k = 7 \<or> ?k = 8
        \<or> ?k = 9 \<or> ?k = 10 \<or> ?k = 11"
      by (rule small_limit)
    show "advance_rulelist (6 + n) (''r = '' @ [CHR 0x22] @ ''unterminated'' @ [CHR 0x0D, CHR 0x0A]) ctx 0 [] =
        Inr (False, 0,
          [begin_document, begin_rule 0 1 False, begin_alternation, begin_concatenation,
           begin_repetition, error max_length_exceeded 5, end_repetition False,
           end_concatenation False, end_alternation False, end_rule 0 1 False False,
           end_document False])"
      unfolding six_levels using k by (auto simp: a defs)
    show "advance_rulelist (6 + n) (''r = '' @ [CHR 0x22] @ ''unterminated'') ctx 0 [] =
        Inr (False, 0,
          [begin_document, begin_rule 0 1 False, begin_alternation, begin_concatenation,
           begin_repetition, error max_length_exceeded 5, end_repetition False,
           end_concatenation False, end_alternation False, end_rule 0 1 False False,
           end_document False])"
      unfolding six_levels using k by (auto simp: a defs)
  }
qed

text \<open>The observer without a limit, and the one with a limit of five characters.\<close>

theorem unterminated_quote_before_newline_witness:
  "advance_rulelist 6 (''r = '' @ [CHR 0x22] @ ''unterminated'' @ [CHR 0x0D, CHR 0x0A]) accept_all 0 [] =
     Inr (False, 0,
       [begin_document, begin_rule 0 1 False, begin_alternation, begin_concatenation,
        begin_repetition, error bad_quoted_char 17, end_repetition False,
        end_concatenation False, end_alternation False, end_rule 0 1 False False,
        end_document False])
   \<and> advance_rulelist 6 (''r = '' @ [CHR 0x22] @ ''unterminated'') accept_all 0 [] =
     Inr (False, 0,
       [begin_document, begin_rule 0 1 False, begin_alternation, begin_concatenation,
        begin_repetition, error unbalanced_quote 5, end_repetition False,
        end_concatenation False, end_alternation False, end_rule 0 1 False False,
        end_document False])
   \<and> advance_rulelist 6 (''r = '' @ [CHR 0x22] @ ''unterminated'' @ [CHR 0x0D, CHR 0x0A]) (accept_up_to 5) 0 [] =
     Inr (False, 0,
       [begin_document, begin_rule 0 1 False, begin_alternation, begin_concatenation,
        begin_repetition, error max_length_exceeded 5, end_repetition False,
        end_concatenation False, end_alternation False, end_rule 0 1 False False,
        end_document False])
   \<and> advance_rulelist 6 (''r = '' @ [CHR 0x22] @ ''unterminated'') (accept_up_to 5) 0 [] =
     Inr (False, 0,
       [begin_document, begin_rule 0 1 False, begin_alternation, begin_concatenation,
        begin_repetition, error max_length_exceeded 5, end_repetition False,
        end_concatenation False, end_alternation False, end_rule 0 1 False False,
        end_document False])"
  using unterminated_quote_before_newline [of accept_all 0]
    unterminated_quote_before_newline [of "accept_up_to 5" 0]
  by (simp add: accept_all_def accept_up_to_def)

text \<open>C5 as stated fails: on its input the call reports one error, and it is not \<open>unbalanced_quote\<close>.\<close>

theorem unterminated_quote_counterexample:
  "returned (advance_rulelist 6 (''r = '' @ [CHR 0x22] @ ''unterminated'' @ [CHR 0x0D, CHR 0x0A]) accept_all 0 []) = Some False
   \<and> reported (advance_rulelist 6 (''r = '' @ [CHR 0x22] @ ''unterminated'' @ [CHR 0x0D, CHR 0x0A]) accept_all 0 []) = [bad_quoted_char]
   \<and> unbalanced_quote \<notin> set (reported (advance_rulelist 6 (''r = '' @ [CHR 0x22] @ ''unterminated'' @ [CHR 0x0D, CHR 0x0A]) accept_all 0 []))"
  by (simp add: char_class_defs token_defs result_defs value_defs decimal_defs body_defs
        rule_defs driver_defs returned_def reported_def)

subsection \<open>C8: reads at the end position\<close>

text \<open>
  C8 says that no advancer reads the character at the end position. \<^verbatim>\<open>advance_number\<close>
  reads it after a minus sign that ends the input, and in the test of its loop after a run
  of digits that ends the input; \<^verbatim>\<open>advance_group_or_option\<close> reads it when the input ends
  before the closing bracket, with every bound on the depth from six levels on.
\<close>

theorem reads_at_end_of_input:
  "advance_number ''%d1-'' accept_all 0 [] = Inl (end_dereferenced [first_number decimal 2 3])
   \<and> advance_number ''%d1.2'' accept_all 0 [] =
       Inl (end_dereferenced [first_number decimal 2 3, next_number decimal 4 5])
   \<and> advance_group_or_option (6 + n) ''(a'' accept_all 0 [] =
       Inl (end_dereferenced
         [begin_alternation, begin_concatenation, begin_repetition, rulename 1 2,
          end_repetition True, end_concatenation True, end_alternation True])"
  unfolding six_levels
  by (simp add: char_class_defs token_defs result_defs value_defs decimal_defs body_defs
        rule_defs driver_defs advance_Suc)


subsection \<open>C10: a comment that ends the input\<close>

lemma skip_chars_to_end:
  "p \<le> length s \<Longrightarrow> (\<And>i. p \<le> i \<Longrightarrow> i < length s \<Longrightarrow> P (s ! i)) \<Longrightarrow> skip_chars P s p = length s"
proof (induction P s p rule: skip_chars.induct)
  case (1 P s p)
  show ?case
  proof (cases "p < length s")
    case True
    then have here: "P (s ! p)" using "1.prems"(2) by simp
    have "skip_chars P s (Suc p) = length s"
      using True here "1.prems"(2) by (intro "1.IH") simp_all
    with True here show ?thesis by (subst skip_chars.simps) simp
  next
    case False
    with "1.prems"(1) show ?thesis by (subst skip_chars.simps) simp
  qed
qed

text \<open>
  C10. On an input that holds, from the cursor on, a semicolon and then neither CR nor LF up
  to its end, \<^verbatim>\<open>advance_comment\<close> returns true and leaves the cursor at the end position.
\<close>

theorem advance_comment_without_newline:
  assumes s: "s = pre @ CHR '';'' # rest"
    and rest: "\<forall>c \<in> set rest. \<not> is_cr_char c \<and> \<not> is_lf_char c"
  shows "advance_comment s (length pre) = (True, length s)"
proof -
  let ?pos = "length pre"
  have lt: "?pos < length s" using s by simp
  have semi: "s ! ?pos = CHR '';''" using s by simp
  have body: "skip_chars (\<lambda>c. \<not> (is_cr_char c \<or> is_lf_char c)) s (Suc ?pos) = length s"
  proof (rule skip_chars_to_end)
    show "Suc ?pos \<le> length s" using lt by simp
  next
    fix i assume a: "Suc ?pos \<le> i" and b: "i < length s"
    from a b s have "s ! i = rest ! (i - Suc ?pos)"
      by (simp add: nth_append nth_Cons')
    moreover from a b s have "i - Suc ?pos < length rest" by simp
    ultimately have "s ! i \<in> set rest" by simp
    with rest show "\<not> (is_cr_char (s ! i) \<or> is_lf_char (s ! i))" by simp
  qed
  from lt semi body show ?thesis
    by (simp add: advance_comment_def compare_and_assign_def)
qed

theorem advance_comment_without_newline_witness:
  "advance_comment '';abc'' 0 = (True, 4)"
  using advance_comment_without_newline [of "'';abc''" "[]" "''abc''"]
  by (simp add: is_cr_char_def is_lf_char_def code_def)


subsection \<open>C7: the callbacks of a dotted number\<close>

lemma skip_chars_run:
  "s = a @ r @ b \<Longrightarrow> list_all P r \<Longrightarrow> b = [] \<or> \<not> P (hd b) \<Longrightarrow>
     skip_chars P s (length a) = length a + length r"
proof (induction r arbitrary: a)
  case Nil
  show ?case
  proof (cases b)
    case Nil
    with Nil.prems(1) show ?thesis by (subst skip_chars.simps) simp
  next
    case (Cons x xs)
    with Nil.prems have "\<not> P (s ! length a)" by simp
    then show ?thesis by (subst skip_chars.simps) simp
  qed
next
  case (Cons x r)
  from Cons.prems(1) have s': "s = (a @ [x]) @ r @ b" by simp
  from Cons.prems(2) have r: "list_all P r" and x: "P x" by simp_all
  have "skip_chars P s (length (a @ [x])) = length (a @ [x]) + length r"
    using s' r Cons.prems(3) by (rule Cons.IH)
  then have step: "skip_chars P s (Suc (length a)) = Suc (length a) + length r" by simp
  have here: "length a < length s \<and> P (s ! length a)"
    using Cons.prems(1) x by simp
  show ?case
    using here step by (subst skip_chars.simps) simp
qed

lemma advance_func_run:
  assumes "s = a @ r @ b" "r \<noteq> []" "list_all (is_digit_func flag) r"
    "b = [] \<or> \<not> is_digit_func flag (hd b)"
  shows "advance_func flag s (length a) = (True, length a + length r)"
proof -
  have sk: "skip_chars (is_digit_func flag) s (length a) = length a + length r"
    using assms(1,3,4) by (rule skip_chars_run)
  from assms(2) have pos: "length a \<noteq> length a + length r" by simp
  show ?thesis
  proof (cases flag)
    case unspecified
    with assms(2,3) show ?thesis by (cases r) (simp_all add: is_digit_func_def)
  next
    case binary
    with sk pos show ?thesis
      by (simp add: advance_func_def is_digit_func_def advance_bit_chars_def compare_and_assign_def)
  next
    case decimal
    with sk pos show ?thesis
      by (simp add: advance_func_def is_digit_func_def advance_digit_chars_def compare_and_assign_def)
  next
    case hexadecimal
    with sk pos show ?thesis
      by (simp add: advance_func_def is_digit_func_def advance_hexdigit_chars_def compare_and_assign_def)
  qed
qed

lemma dot_is_no_digit: "\<not> is_digit_func flag CHR ''.''"
  by (cases flag)
     (simp_all add: is_digit_func_def is_digit_char_def is_hexdigit_char_def is_bit_char_def code_def)

lemma runs_end_ge: "p \<le> runs_end p rs"
proof (induction rs arbitrary: p)
  case Nil
  show ?case by simp
next
  case (Cons r rs)
  have "Suc p + length r \<le> runs_end (Suc p + length r) rs" by (rule Cons.IH)
  then show ?case by simp
qed

lemma number_sequence_runs:
  assumes accept: "\<forall>tr ev. answer ctx tr ev"
    and t: "t \<noteq> []" "hd t \<noteq> CHR ''.''" "\<not> is_digit_func flag (hd t)"
  shows "\<forall>r \<in> set rs. r \<noteq> [] \<and> list_all (is_digit_func flag) r \<Longrightarrow> s = a @ dotted rs @ t \<Longrightarrow>
     number_sequence s ctx flag True (length a) tr =
       Inr (True, True, runs_end (length a) rs, tr @ next_numbers flag (length a) rs)"
proof (induction rs arbitrary: a tr)
  case Nil
  from Nil.prems(2) t(1) have lt: "length a < length s" by (simp add: dotted_def)
  from Nil.prems(2) t(1) have "s ! length a = hd t"
    by (cases t) (simp_all add: dotted_def)
  with t(2) lt show ?case
    by (subst number_sequence.simps) (simp add: deref_def and_then_def)
next
  case (Cons r rs)
  from Cons.prems(1) have r: "r \<noteq> []" "list_all (is_digit_func flag) r"
    and rs: "\<forall>r \<in> set rs. r \<noteq> [] \<and> list_all (is_digit_func flag) r" by simp_all
  let ?p = "length a"
  from Cons.prems(2) have s1: "s = a @ CHR ''.'' # r @ dotted rs @ t"
    by (simp add: dotted_def)
  from s1 have lt: "?p < length s" and dot: "s ! ?p = CHR ''.''" by simp_all
  from s1 r(1) have lt2: "Suc ?p < length s" by simp
  from s1 r have first: "is_digit_func flag (s ! Suc ?p)"
    by (cases r) (simp_all add: nth_append)
  have s2: "s = (a @ [CHR ''.'']) @ r @ (dotted rs @ t)" using s1 by simp
  have after: "dotted rs @ t = [] \<or> \<not> is_digit_func flag (hd (dotted rs @ t))"
  proof (cases rs)
    case Nil
    with t show ?thesis by (simp add: dotted_def)
  next
    case (Cons x xs)
    then show ?thesis by (simp add: dotted_def dot_is_no_digit)
  qed
  have "advance_func flag s (length (a @ [CHR ''.''])) = (True, length (a @ [CHR ''.'']) + length r)"
    using s2 r after by (rule advance_func_run)
  then have adv: "advance_func flag s (Suc ?p) = (True, Suc ?p + length r)" by simp
  have s3: "s = (a @ CHR ''.'' # r) @ dotted rs @ t" using s1 by simp
  have rec: "number_sequence s ctx flag True (length (a @ CHR ''.'' # r))
        (tr @ [next_number flag (Suc ?p) (Suc ?p + length r)]) =
      Inr (True, True, runs_end (length (a @ CHR ''.'' # r)) rs,
        (tr @ [next_number flag (Suc ?p) (Suc ?p + length r)]) @
          next_numbers flag (length (a @ CHR ''.'' # r)) rs)"
    using rs s3 by (rule Cons.IH)
  show ?case
    using lt dot lt2 first adv accept rec
    by (subst number_sequence.simps)
       (simp add: deref_def and_then_def and_notify_def notify_def)
qed





subsection \<open>C3: the callbacks are bracketed\<close>

lemma ends_not_begins: "ends ev = Some b \<Longrightarrow> begins ev = None"
  by (cases ev) simp_all

lemma nested_append:
  "nested inner xs \<Longrightarrow> nested (inner @ outer) (xs @ ys) = nested outer ys"
proof (induction xs arbitrary: inner)
  case Nil
  then show ?case by simp
next
  case (Cons ev xs)
  show ?case
  proof (cases "begins ev")
    case (Some b)
    with Cons.prems have "nested (b # inner) xs" by simp
    then have "nested ((b # inner) @ outer) (xs @ ys) = nested outer ys" by (rule Cons.IH)
    with Some show ?thesis by simp
  next
    case None
    show ?thesis
    proof (cases "ends ev")
      case n: None
      with None Cons.prems have "nested inner xs" by simp
      then have "nested (inner @ outer) (xs @ ys) = nested outer ys" by (rule Cons.IH)
      with None n show ?thesis by simp
    next
      case (Some b)
      with None Cons.prems obtain others where i: "inner = b # others" and r: "nested others xs"
        by (cases inner) auto
      from r have "nested (others @ outer) (xs @ ys) = nested outer ys" by (rule Cons.IH)
      with None Some i show ?thesis by simp
    qed
  qed
qed

lemma balanced_Nil: "balanced []"
  by (simp add: balanced_def)

lemma balanced_append: "balanced xs \<Longrightarrow> balanced ys \<Longrightarrow> balanced (xs @ ys)"
  using nested_append [of "[]" xs "[]" ys] by (simp add: balanced_def)

lemma balanced_plain: "begins ev = None \<Longrightarrow> ends ev = None \<Longrightarrow> balanced [ev]"
  by (simp add: balanced_def)

lemma balanced_frame:
  assumes "begins b = Some k" "ends e = Some k" "balanced mid"
  shows "balanced (b # mid @ [e])"
proof -
  have "nested ([] @ [k]) (mid @ [e]) = nested [k] [e]"
    using assms(3) unfolding balanced_def by (rule nested_append)
  moreover have "nested [k] [e]"
    using assms(2) ends_not_begins [OF assms(2)] by simp
  ultimately show ?thesis
    using assms(1) by (simp add: balanced_def)
qed

lemma grows_refl: "grows tr tr"
  by (simp add: grows_def balanced_Nil)

lemma grows_trans: "grows a b \<Longrightarrow> grows b c \<Longrightarrow> grows a c"
  by (auto simp: grows_def intro: balanced_append)

lemma grows_plain: "begins ev = None \<Longrightarrow> ends ev = None \<Longrightarrow> grows tr (tr @ [ev])"
  by (auto simp: grows_def intro: balanced_plain)

lemma grows_frame:
  assumes "grows (tr @ [b]) tr2" "begins b = Some k" "ends e = Some k"
  shows "grows tr (tr2 @ [e])"
proof -
  from assms(1) obtain mid where m: "tr2 = (tr @ [b]) @ mid" "balanced mid"
    by (auto simp: grows_def)
  have "balanced (b # mid @ [e])" using assms(2,3) m(2) by (rule balanced_frame)
  with m(1) show ?thesis by (auto simp: grows_def)
qed

lemma post_simps [simp]:
  "post (Inl e) Q = True"
  "post (Inr x) Q = Q x"
  by (simp_all add: post_def)

lemma post_and_then [simp]: "post (and_then m f) Q = post m (\<lambda>x. post (f x) Q)"
  by (cases m) (simp_all add: and_then_def)

lemma post_or_else [simp]:
  "post (or_else m f) Q = post m (\<lambda>(ok, pos, tr). if ok then Q (ok, pos, tr) else post (f pos tr) Q)"
  by (cases m) (auto simp: or_else_def)

lemma post_and_also [simp]:
  "post (and_also success m pos tr) Q = (if success then post m Q else Q (False, pos, tr))"
  by (simp add: and_also_def)

lemma post_close_with [simp]:
  "post (close_with ctx end_event (success, pos, tr)) Q =
     Q (answer ctx tr (end_event success) \<and> success, pos, tr @ [end_event success])"
  by (simp add: close_with_def notify_def)

lemma post_finish [simp]:
  "post (finish success pos p tr) Q = (if success then Q (pos \<noteq> p, p, tr) else Q (False, pos, tr))"
  by (simp add: finish_def compare_and_assign_def)

lemma post_deref [simp]: "post (deref s p tr) Q = (p < length s \<longrightarrow> Q (s ! p))"
  by (simp add: deref_def)

lemma post_mono: "post m P \<Longrightarrow> (\<And>x. P x \<Longrightarrow> Q x) \<Longrightarrow> post m Q"
  by (cases m) simp_all

lemma post_if:
  "post (if c then a else b) Q = (if c then post a Q else post b Q)"
  by simp

lemma progress_simp [simp]: "progress pos tr (ok, pos', tr') = (pos \<le> pos' \<and> grows tr tr')"
  by (simp add: progress_def)

lemma steadyD: "steady f \<Longrightarrow> post (f s ctx pos tr) (progress pos tr)"
  by (simp add: steady_def)

lemma steady_then:
  "steady f \<Longrightarrow> (\<And>ok pos' tr'. pos \<le> pos' \<Longrightarrow> grows tr tr' \<Longrightarrow> Q (ok, pos', tr')) \<Longrightarrow>
     post (f s ctx pos tr) Q"
  by (rule post_mono [OF steadyD]) auto

lemma skip_comment_whitespace_ge: "p \<le> skip_comment_whitespace s p"
proof (induction s p rule: skip_comment_whitespace.induct)
  case (1 s p)
  show ?case
  proof (cases "fst (advance_comment_whitespace s p)")
    case True
    then have "p < snd (advance_comment_whitespace s p)"
      using advance_comment_whitespace_progress by blast
    moreover from True 1
    have "snd (advance_comment_whitespace s p) \<le> skip_comment_whitespace s (snd (advance_comment_whitespace s p))"
      by simp
    ultimately show ?thesis
      using True by (subst skip_comment_whitespace.simps) simp
  next
    case False
    then show ?thesis
      using advance_comment_whitespace_stay [of s p] by (subst skip_comment_whitespace.simps) simp
  qed
qed

lemma skip_linear_whitespace_ge: "p \<le> skip_linear_whitespace s p"
proof (induction s p rule: skip_linear_whitespace.induct)
  case (1 s p)
  show ?case
  proof (cases "fst (advance_linear_whitespace s p)")
    case True
    then have "p < snd (advance_linear_whitespace s p)"
      using advance_linear_whitespace_progress by blast
    moreover from True 1
    have "snd (advance_linear_whitespace s p) \<le> skip_linear_whitespace s (snd (advance_linear_whitespace s p))"
      by simp
    ultimately show ?thesis
      using True by (subst skip_linear_whitespace.simps) simp
  next
    case False
    then show ?thesis
      using advance_linear_whitespace_stay [of s p] by (subst skip_linear_whitespace.simps) simp
  qed
qed

lemma advance_comment_whitespace_ge: "p \<le> snd (advance_comment_whitespace s p)"
  using advance_comment_whitespace_progress [of s p] advance_comment_whitespace_stay [of s p]
  by (cases "fst (advance_comment_whitespace s p)") simp_all

lemma advance_comment_newline_ge: "p \<le> snd (advance_comment_newline s p)"
  using advance_comment_newline_progress [of s p] advance_comment_newline_stay [of s p]
  by (cases "fst (advance_comment_newline s p)") simp_all

lemma advance_func_ge: "p \<le> snd (advance_func flag s p)"
  using skip_chars_ge [of p _ s]
  by (cases flag)
     (simp_all add: advance_func_def advance_hexdigit_chars_def advance_digit_chars_def
        advance_bit_chars_def compare_and_assign_def)

lemma grows_event [simp]:
  "grows tr (tr @ [prose a b])"
  "grows tr (tr @ [first_number flag a b])"
  "grows tr (tr @ [last_number flag a b])"
  "grows tr (tr @ [next_number flag a b])"
  "grows tr (tr @ [quoted_string a b])"
  "grows tr (tr @ [error ec a])"
  "grows tr (tr @ [repeat lo hi])"
  "grows tr (tr @ [rulename a b])"
  by (simp_all add: grows_plain)

lemma steady_prose: "steady advance_prose"
  unfolding steady_def
proof (intro allI)
  fix s ctx pos tr
  have "Suc pos \<le> skip_chars is_prose_value_char s (Suc pos)" by (rule skip_chars_ge)
  then show "post (advance_prose s ctx pos tr) (progress pos tr)"
    by (auto simp: advance_prose_def Let_def notify_def grows_refl)
qed

lemma and_notify_grows [simp]:
  "grows tr (snd (and_notify success ctx tr (next_number flag a b)))"
  "grows tr (snd (and_notify success ctx tr (last_number flag a b)))"
  by (simp_all add: and_notify_def notify_def grows_refl)

lemma number_sequence_progress:
  "post (number_sequence s ctx flag success p tr)
     (\<lambda>(completed, success', p', tr'). p \<le> p' \<and> grows tr tr')"
proof (induction s ctx flag success p tr rule: number_sequence.induct)
  case (1 s ctx flag success p tr)
  let ?q = "snd (advance_func flag s (Suc p))"
  let ?ev = "next_number flag (Suc p) ?q"
  show ?case
  proof (cases "p < length s \<and> s ! p = CHR ''.'' \<and> Suc p < length s
      \<and> is_digit_func flag (s ! Suc p) \<and> fst (advance_func flag s (Suc p))")
    case True
    then have "post (number_sequence s ctx flag (fst (and_notify success ctx tr ?ev)) ?q
          (snd (and_notify success ctx tr ?ev)))
        (\<lambda>(completed, success', p', tr'). ?q \<le> p' \<and> grows (snd (and_notify success ctx tr ?ev)) tr')"
      by (intro "1.IH" [of "CHR ''.''" "s ! Suc p"]) (simp_all add: deref_def)
    moreover have q: "Suc p \<le> ?q" by (rule advance_func_ge)
    have g: "grows tr (snd (and_notify success ctx tr ?ev))" by simp
    ultimately have "post (number_sequence s ctx flag (fst (and_notify success ctx tr ?ev)) ?q
          (snd (and_notify success ctx tr ?ev)))
        (\<lambda>(completed, success', p', tr'). p \<le> p' \<and> grows tr tr')"
      using q by (elim post_mono) (auto intro: grows_trans [OF g])
    with True show ?thesis
      by (subst number_sequence.simps) simp
  next
    case False
    then show ?thesis
      by (subst number_sequence.simps) (auto simp: grows_refl)
  qed
qed

lemma number_value_progress:
  "pos \<le> p \<Longrightarrow> post (number_value s ctx flag pos p tr) (progress pos tr)"
proof -
  assume le: "pos \<le> p"
  let ?q = "snd (advance_func flag s p)"
  let ?tr1 = "tr @ [first_number flag p ?q]"
  have q: "p \<le> ?q" by (rule advance_func_ge)
  have q2: "Suc ?q \<le> snd (advance_func flag s (Suc ?q))" by (rule advance_func_ge)
  have g1: "grows tr ?tr1" by simp
  have seq: "post (number_sequence s ctx flag (answer ctx tr (first_number flag p ?q)) ?q ?tr1)
      (\<lambda>(completed, success', p', tr'). ?q \<le> p' \<and> grows ?tr1 tr')"
    by (rule number_sequence_progress)
  have seq': "post (number_sequence s ctx flag (answer ctx tr (first_number flag p ?q)) ?q ?tr1)
      (\<lambda>x. post (case x of (completed, success, p, tr) \<Rightarrow>
            if \<not> completed then Inr (False, pos, tr)
            else (let (success, tr) = and_notify success ctx tr (last_number flag p p)
                  in finish success pos p tr)) (progress pos tr))"
    using seq
  proof (rule post_mono)
    fix x :: "bool \<times> bool \<times> nat \<times> event list"
    obtain completed success' p' tr' where x: "x = (completed, success', p', tr')"
      by (cases x) auto
    assume "case x of (completed, success', p', tr') \<Rightarrow> ?q \<le> p' \<and> grows ?tr1 tr'"
    with x have a: "?q \<le> p'" and b: "grows ?tr1 tr'" by simp_all
    from g1 b have c: "grows tr tr'" by (rule grows_trans)
    have d: "grows tr' (snd (and_notify success' ctx tr' (last_number flag p' p')))" by simp
    from c d have e: "grows tr (snd (and_notify success' ctx tr' (last_number flag p' p')))"
      by (rule grows_trans)
    from le q a have f: "pos \<le> p'" by simp
    show "post (case x of (completed, success, p, tr) \<Rightarrow>
            if \<not> completed then Inr (False, pos, tr)
            else (let (success, tr) = and_notify success ctx tr (last_number flag p p)
                  in finish success pos p tr)) (progress pos tr)"
      using c e f by (simp add: x split_beta Let_def)
  qed
  have l1: "\<And>success. grows tr (snd (and_notify success ctx ?tr1 (last_number flag ?q ?q)))"
    by (rule grows_trans [OF g1]) simp
  have l2: "\<And>success a b. grows tr (snd (and_notify success ctx ?tr1 (last_number flag a b)))"
    by (rule grows_trans [OF g1]) simp
  show ?thesis
    using le q q2 g1 seq' l1 l2
    by (auto simp: number_value_def Let_def notify_def split_beta grows_refl)
qed

lemma steady_number: "steady advance_number"
  unfolding steady_def
proof (intro allI)
  fix s ctx pos tr
  have "post (number_value s ctx flag pos (Suc (Suc pos)) tr) (progress pos tr)" for flag
    by (rule number_value_progress) simp
  then show "post (advance_number s ctx pos tr) (progress pos tr)"
    by (auto simp: advance_number_def Let_def grows_refl)
qed

lemma quoted_chars_ge: "quoted_chars s first_pos max_length len p = Inr q \<Longrightarrow> p \<le> q"
proof (induction s first_pos max_length len p rule: quoted_chars.induct)
  case (1 s first_pos max_length len p)
  show ?case
  proof (cases "p < length s \<and> \<not> is_dquote_char (s ! p)")
    case True
    with "1.prems" have ok: "\<not> \<not> (is_visible_char (s ! p) \<or> is_space_char (s ! p))" "len \<noteq> max_length"
      and rec: "quoted_chars s first_pos max_length (Suc len) (Suc p) = Inr q"
      by (subst (asm) quoted_chars.simps, simp split: if_splits)+
    from True ok rec have "Suc p \<le> q" by (intro "1.IH") simp_all
    then show ?thesis by simp
  next
    case False
    with "1.prems" show ?thesis by (subst (asm) quoted_chars.simps) auto
  qed
qed

lemma steady_quoted_string: "steady advance_quoted_string"
  unfolding steady_def
proof (intro allI)
  fix s ctx pos tr
  show "post (advance_quoted_string s ctx pos tr) (progress pos tr)"
    by (auto simp: advance_quoted_string_def Let_def notify_def grows_refl
          dest!: quoted_chars_ge split: sum.splits)
qed

lemma repeat_bounds_ge:
  "post (repeat_bounds s pos tr) (\<lambda>(p, first_from, last_from, first_to, last_to). pos \<le> p)"
proof -
  have a: "pos \<le> snd (advance_digit_chars s pos)"
    using skip_chars_ge [of pos is_digit_char s]
    by (simp add: advance_digit_chars_def compare_and_assign_def)
  have b: "\<And>p. p \<le> snd (advance_digit_chars s p)"
    using skip_chars_ge [of _ is_digit_char s]
    by (simp add: advance_digit_chars_def compare_and_assign_def)
  have c: "\<And>p. pos \<le> p \<Longrightarrow> pos \<le> snd (advance_digit_chars s (Suc p))"
    using b le_trans by (meson Suc_leD)
  show ?thesis
    using a c by (auto simp: repeat_bounds_def Let_def)
qed

lemma steady_repeat: "steady advance_repeat"
  unfolding steady_def
proof (intro allI)
  fix s ctx pos tr
  show "post (advance_repeat s ctx pos tr) (progress pos tr)"
    unfolding advance_repeat_def
    by (auto simp: Let_def notify_def grows_refl split_beta
          intro!: post_mono [OF repeat_bounds_ge])
qed

lemma rulename_helper_ge:
  "post (advance_rulename_helper s pos tr) (\<lambda>(ok, p, rulename_first, rulename_last). pos \<le> p \<and> (ok \<longrightarrow> pos < p))"
  using skip_chars_ge [of "Suc pos" "\<lambda>c. is_alpha_char c \<or> is_digit_char c \<or> c = CHR ''-''" s]
  by (auto simp: advance_rulename_helper_def Let_def compare_and_assign_def)

lemma steady_rulename: "steady advance_rulename"
  unfolding steady_def
proof (intro allI)
  fix s ctx pos tr
  show "post (advance_rulename s ctx pos tr) (progress pos tr)"
    unfolding advance_rulename_def
    by (auto simp: Let_def notify_def grows_refl split_beta
          intro!: post_mono [OF rulename_helper_ge])
qed

lemma repeat_op_progress:
  assumes op: "\<And>p st. post (op p st) (progress p st)"
  shows "post (repeat_op op high applied p st) (\<lambda>(n, p', st'). p \<le> p' \<and> grows st st')"
  using op
proof (induction op high applied p st rule: repeat_op.induct)
  case (1 op' high applied p st)
  note op' = "1.prems"
  show ?case
  proof (cases "applied < high")
    case False
    then show ?thesis by (subst repeat_op.simps) (simp add: grows_refl)
  next
    case True
    show ?thesis
    proof (cases "op' p st")
      case (Inl e)
      with True show ?thesis by (subst repeat_op.simps) simp
    next
      case (Inr r)
      obtain ok p' st' where r: "r = (ok, p', st')" by (cases r) auto
      from op' [of p st] Inr r have step: "p \<le> p'" "grows st st'" by simp_all
      show ?thesis
      proof (cases ok)
        case False
        with True Inr r step show ?thesis by (subst repeat_op.simps) simp
      next
        case ok: True
        have "post (repeat_op op' high (applied + 1) p' st') (\<lambda>(n, p'', st''). p' \<le> p'' \<and> grows st' st'')"
          using True Inr r ok op' by (intro "1.IH") simp_all
        then have "post (repeat_op op' high (applied + 1) p' st') (\<lambda>(n, p'', st''). p \<le> p'' \<and> grows st st'')"
          using step(1) by (elim post_mono) (auto intro: grows_trans [OF step(2)])
        with True Inr r ok show ?thesis by (subst repeat_op.simps) simp
      qed
    qed
  qed
qed

lemma driver_progress:
  assumes op: "\<And>p st. post (op p st) (progress p st)"
  shows "post (advance_repetition_by_range bounds op pos st) (progress pos st)"
  unfolding advance_repetition_by_range_def
  by (auto simp: grows_refl split_beta intro!: post_mono [OF repeat_op_progress [of op, OF op]])

lemma steady_later:
  "steady f \<Longrightarrow> pos \<le> p \<Longrightarrow> grows tr t \<Longrightarrow> post (f s ctx p t) (progress pos tr)"
proof (rule steady_then, assumption)
  fix ok pos' tr'
  assume "pos \<le> p" "grows tr t" "p \<le> pos'" "grows t tr'"
  then show "progress pos tr (ok, pos', tr')"
    by (auto intro: grows_trans)
qed

lemma or_else_later:
  assumes "post m (progress pos tr)"
    and "\<And>p t. pos \<le> p \<Longrightarrow> grows tr t \<Longrightarrow> post (f p t) (progress pos tr)"
  shows "post (or_else m f) (progress pos tr)"
  using assms(1) by (simp, elim post_mono) (auto intro: assms(2))

lemma steady_element_body:
  assumes g: "steady call_group" and o: "steady call_option"
  shows "steady (element_body call_group call_option)"
  unfolding steady_def
proof (intro allI)
  fix s :: string and ctx :: observer and pos :: nat and tr :: "event list"
  show "post (element_body call_group call_option s ctx pos tr) (progress pos tr)"
  proof (cases "pos < length s")
    case False
    then show ?thesis by (simp add: element_body_def grows_refl)
  next
    case True
    then have eq: "element_body call_group call_option s ctx pos tr =
        or_else (advance_rulename s ctx pos tr) (\<lambda>pos tr.
        or_else (call_group s ctx pos tr) (\<lambda>pos tr.
        or_else (call_option s ctx pos tr) (\<lambda>pos tr.
        or_else (advance_number s ctx pos tr) (\<lambda>pos tr.
        or_else (advance_quoted_string s ctx pos tr) (\<lambda>pos tr.
        advance_prose s ctx pos tr)))))"
      by (simp add: element_body_def)
    show ?thesis
      unfolding eq
      by (intro or_else_later steady_later [OF steady_rulename] steady_later [OF g]
            steady_later [OF o] steady_later [OF steady_number]
            steady_later [OF steady_quoted_string] steady_later [OF steady_prose]
            order_refl grows_refl)
  qed
qed

text \<open>What stands between a begin callback and its end callback.\<close>

lemma close_later:
  assumes m: "post m (progress pos (tr @ [b]))"
    and b: "begins b = Some k" and e: "\<And>success. ends (end_event success) = Some k"
  shows "post (and_then m (close_with ctx end_event)) (progress pos tr)"
  using m
proof (simp, elim post_mono)
  fix x :: advance
  obtain ok p t where x: "x = (ok, p, t)" by (cases x) auto
  assume "progress pos (tr @ [b]) x"
  with x have "pos \<le> p" "grows (tr @ [b]) t" by simp_all
  then show "post (close_with ctx end_event x) (progress pos tr)"
    using b e by (simp add: x grows_frame)
qed

lemma and_also_later:
  "post m (progress pos tr) \<Longrightarrow> pos \<le> p \<Longrightarrow> grows tr t \<Longrightarrow>
     post (and_also success m p t) (progress pos tr)"
  by simp

lemma and_then_later:
  assumes "post m (progress pos tr)"
    and "\<And>ok p t. pos \<le> p \<Longrightarrow> grows tr t \<Longrightarrow> post (f (ok, p, t)) (progress pos tr)"
  shows "post (and_then m f) (progress pos tr)"
  using assms(1) by (simp, elim post_mono) (auto intro: assms(2))

lemma steady_repetition_body:
  assumes el: "steady call_element"
  shows "steady (repetition_body call_element)"
  unfolding steady_def
proof (intro allI)
  fix s :: string and ctx :: observer and pos :: nat and tr :: "event list"
  let ?tr1 = "tr @ [begin_repetition]"
  let ?success = "answer ctx tr begin_repetition"
  let ?m = "and_then (advance_repeat s ctx pos ?tr1)
      (\<lambda>(ignored, p, t). and_also ?success (call_element s ctx p t) p t)"
  have "post ?m (progress pos ?tr1)"
    by (rule and_then_later [OF steadyD [OF steady_repeat]])
       (auto intro!: and_also_later steady_later [OF el] simp del: post_and_also)
  then have "post (and_then ?m (close_with ctx end_repetition)) (progress pos tr)"
    by (rule close_later) simp_all
  then show "post (repetition_body call_element s ctx pos tr) (progress pos tr)"
    by (simp add: repetition_body_def notify_def split_beta grows_refl)
qed

lemma steady_concatenation_next_body:
  assumes rep: "steady call_repetition"
  shows "steady (concatenation_next_body call_repetition)"
  unfolding steady_def
proof (intro allI)
  fix s :: string and ctx :: observer and pos :: nat and tr :: "event list"
  let ?ws = "\<lambda>pos tr. Inr (fst (advance_comment_whitespace s pos), snd (advance_comment_whitespace s pos), tr)
      :: fault + advance"
  have ws: "post (?ws p t) (progress p t)" for p t
    by (simp add: advance_comment_whitespace_ge grows_refl)
  have "post (advance_repetition_by_range (make_range 1) ?ws pos tr) (progress pos tr)"
    using ws by (rule driver_progress)
  then show "post (concatenation_next_body call_repetition s ctx pos tr) (progress pos tr)"
    unfolding concatenation_next_body_def
  proof (rule and_then_later)
    fix ok p t
    assume a: "pos \<le> p" "grows tr t"
    have r: "post (call_repetition s ctx p t) (progress pos tr)"
      using rep a by (rule steady_later)
    show "post (case (ok, p, t) of (ok, p, tr') \<Rightarrow>
          if \<not> ok then Inr (False, pos, tr')
          else and_then (call_repetition s ctx p tr') (\<lambda>(ok, p, tr').
            if \<not> ok then Inr (False, pos, tr')
            else Inr (fst (compare_and_assign pos p), snd (compare_and_assign pos p), tr')))
        (progress pos tr)"
    proof (cases ok)
      case False
      with a show ?thesis by simp
    next
      case True
      have "post (call_repetition s ctx p t) (\<lambda>x. post (case x of (ok, p, tr') \<Rightarrow>
            if \<not> ok then Inr (False, pos, tr')
            else Inr (fst (compare_and_assign pos p), snd (compare_and_assign pos p), tr'))
          (progress pos tr))"
        using r by (rule post_mono) (auto simp: compare_and_assign_def)
      with True show ?thesis by simp
    qed
  qed
qed

lemma steady_bracket_body:
  assumes first: "steady call_first" and nxt: "steady call_next"
    and b: "begins b = Some k" and e: "\<And>success. ends (end_event success) = Some k"
  shows "post (and_then (and_also success (call_first s ctx pos (tr @ [b])) pos (tr @ [b]))
        (\<lambda>(success, pos, tr).
           and_then (and_also success
                       (advance_repetition_by_range unlimited_range (call_next s ctx) pos tr) pos tr)
             (close_with ctx end_event)))
      (progress pos tr)"
proof -
  let ?tr1 = "tr @ [b]"
  let ?m = "and_then (and_also success (call_first s ctx pos ?tr1) pos ?tr1)
      (\<lambda>(success, p, t).
         and_also success (advance_repetition_by_range unlimited_range (call_next s ctx) p t) p t)"
  have drv: "post (advance_repetition_by_range unlimited_range (call_next s ctx) p t) (progress p t)" for p t
    by (rule driver_progress) (rule steadyD [OF nxt])
  have drv': "post (advance_repetition_by_range unlimited_range (call_next s ctx) p t) (progress pos ?tr1)"
    if "pos \<le> p" "grows ?tr1 t" for p t
    using drv [of p t] that by (elim post_mono) (auto intro: grows_trans)
  have "post (and_also success (call_first s ctx pos ?tr1) pos ?tr1) (progress pos ?tr1)"
    using steadyD [OF first, of s ctx pos ?tr1] by (simp add: grows_refl)
  then have "post ?m (progress pos ?tr1)"
    by (rule and_then_later) (auto intro: drv')
  then have "post (and_then ?m (close_with ctx end_event)) (progress pos tr)"
    using b e by (rule close_later)
  then show ?thesis
    by (simp add: split_beta)
qed

lemma steady_concatenation_body:
  assumes rep: "steady call_repetition" and nxt: "steady call_next"
  shows "steady (concatenation_body call_repetition call_next)"
  unfolding steady_def
proof (intro allI)
  fix s :: string and ctx :: observer and pos :: nat and tr :: "event list"
  show "post (concatenation_body call_repetition call_next s ctx pos tr) (progress pos tr)"
  proof (cases "pos < length s")
    case False
    then show ?thesis by (simp add: concatenation_body_def grows_refl)
  next
    case True
    then have eq: "concatenation_body call_repetition call_next s ctx pos tr =
        and_then (and_also (answer ctx tr begin_concatenation)
            (call_repetition s ctx pos (tr @ [begin_concatenation])) pos (tr @ [begin_concatenation]))
          (\<lambda>(success, pos, tr).
             and_then (and_also success
                         (advance_repetition_by_range unlimited_range (call_next s ctx) pos tr) pos tr)
               (close_with ctx end_concatenation))"
      by (simp add: concatenation_body_def notify_def)
    show ?thesis
      unfolding eq using rep nxt by (rule steady_bracket_body) simp_all
  qed
qed

lemma steady_alternation_body:
  assumes con: "steady call_concatenation" and nxt: "steady call_next"
  shows "steady (alternation_body call_concatenation call_next)"
  unfolding steady_def
proof (intro allI)
  fix s :: string and ctx :: observer and pos :: nat and tr :: "event list"
  show "post (alternation_body call_concatenation call_next s ctx pos tr) (progress pos tr)"
  proof (cases "pos < length s")
    case False
    then show ?thesis by (simp add: alternation_body_def grows_refl)
  next
    case True
    then have eq: "alternation_body call_concatenation call_next s ctx pos tr =
        and_then (and_also (answer ctx tr begin_alternation)
            (call_concatenation s ctx pos (tr @ [begin_alternation])) pos (tr @ [begin_alternation]))
          (\<lambda>(success, pos, tr).
             and_then (and_also success
                         (advance_repetition_by_range unlimited_range (call_next s ctx) pos tr) pos tr)
               (close_with ctx end_alternation))"
      by (simp add: alternation_body_def notify_def)
    show ?thesis
      unfolding eq using con nxt by (rule steady_bracket_body) simp_all
  qed
qed

lemma steady_alternation_next_body:
  assumes con: "steady call_concatenation"
  shows "steady (alternation_next_body call_concatenation)"
  unfolding steady_def
proof (intro allI)
  fix s :: string and ctx :: observer and pos :: nat and tr :: "event list"
  let ?p1 = "skip_comment_whitespace s pos"
  let ?p2 = "skip_comment_whitespace s (Suc ?p1)"
  have p1: "pos \<le> ?p1" by (rule skip_comment_whitespace_ge)
  have "Suc ?p1 \<le> ?p2" by (rule skip_comment_whitespace_ge)
  with p1 have p2: "pos \<le> ?p2" by simp
  have "post (call_concatenation s ctx ?p2 tr) (progress pos tr)"
    using con p2 grows_refl by (rule steady_later)
  then have "post (call_concatenation s ctx ?p2 tr) (\<lambda>x. post (case x of (ok, p, tr') \<Rightarrow>
        if \<not> ok then Inr (False, pos, tr')
        else Inr (fst (compare_and_assign pos p), snd (compare_and_assign pos p), tr'))
      (progress pos tr))"
    by (rule post_mono) (auto simp: compare_and_assign_def)
  then show "post (alternation_next_body call_concatenation s ctx pos tr) (progress pos tr)"
    by (simp add: alternation_next_body_def Let_def grows_refl)
qed

lemma steady_group_or_option_body:
  assumes alt: "steady call_alternation"
  shows "steady (group_or_option_body call_alternation)"
  unfolding steady_def
proof (intro allI)
  fix s :: string and ctx :: observer and pos :: nat and tr :: "event list"
  let ?p1 = "skip_comment_whitespace s (Suc pos)"
  have "Suc pos \<le> ?p1" by (rule skip_comment_whitespace_ge)
  then have p1: "pos \<le> ?p1" by simp
  have "post (call_alternation s ctx ?p1 tr) (progress pos tr)"
    using alt p1 grows_refl by (rule steady_later)
  then have "post (call_alternation s ctx ?p1 tr) (\<lambda>x. post (case x of (ok, p, tr') \<Rightarrow>
        if \<not> ok then Inr (False, pos, tr')
        else (let p = skip_comment_whitespace s p
              in and_then (deref s p tr') (\<lambda>c.
                   if c \<noteq> closing_bracket then Inr (False, pos, tr')
                   else Inr (fst (compare_and_assign pos (Suc p)),
                             snd (compare_and_assign pos (Suc p)), tr'))))
      (progress pos tr))" for closing_bracket
  proof (rule post_mono)
    fix x :: advance
    obtain ok p t where x: "x = (ok, p, t)" by (cases x) auto
    assume "progress pos tr x"
    with x have a: "pos \<le> p" "grows tr t" by simp_all
    have "p \<le> skip_comment_whitespace s p" by (rule skip_comment_whitespace_ge)
    with a(1) have "pos \<le> Suc (skip_comment_whitespace s p)" by simp
    with a show "post (case x of (ok, p, tr') \<Rightarrow>
        if \<not> ok then Inr (False, pos, tr')
        else (let p = skip_comment_whitespace s p
              in and_then (deref s p tr') (\<lambda>c.
                   if c \<noteq> closing_bracket then Inr (False, pos, tr')
                   else Inr (fst (compare_and_assign pos (Suc p)),
                             snd (compare_and_assign pos (Suc p)), tr'))))
      (progress pos tr)"
      by (simp add: x Let_def compare_and_assign_def)
  qed
  then show "post (group_or_option_body call_alternation s ctx pos tr) (progress pos tr)"
    by (simp add: group_or_option_body_def Let_def grows_refl)
qed

lemma steady_group_body:
  assumes goo: "steady call_group_or_option"
  shows "steady (group_body call_group_or_option)"
  unfolding steady_def
proof (intro allI)
  fix s :: string and ctx :: observer and pos :: nat and tr :: "event list"
  let ?tr1 = "tr @ [begin_group]"
  show "post (group_body call_group_or_option s ctx pos tr) (progress pos tr)"
  proof (cases "pos < length s \<and> s ! pos = CHR ''(''")
    case False
    then show ?thesis by (auto simp: group_body_def grows_refl)
  next
    case True
    then have eq: "group_body call_group_or_option s ctx pos tr =
        and_then (and_also (answer ctx tr begin_group) (call_group_or_option s ctx pos ?tr1) pos ?tr1)
          (close_with ctx end_group)"
      by (simp add: group_body_def notify_def deref_def and_then_def)
    have "post (and_also (answer ctx tr begin_group) (call_group_or_option s ctx pos ?tr1) pos ?tr1)
        (progress pos ?tr1)"
      using steadyD [OF goo, of s ctx pos ?tr1] by (simp add: grows_refl)
    then show ?thesis
      unfolding eq by (rule close_later) simp_all
  qed
qed

lemma steady_option_body:
  assumes goo: "steady call_group_or_option"
  shows "steady (option_body call_group_or_option)"
  unfolding steady_def
proof (intro allI)
  fix s :: string and ctx :: observer and pos :: nat and tr :: "event list"
  let ?tr1 = "tr @ [begin_option]"
  show "post (option_body call_group_or_option s ctx pos tr) (progress pos tr)"
  proof (cases "pos < length s \<and> s ! pos = CHR ''[''")
    case False
    then show ?thesis by (auto simp: option_body_def grows_refl)
  next
    case True
    then have eq: "option_body call_group_or_option s ctx pos tr =
        and_then (and_also (answer ctx tr begin_option) (call_group_or_option s ctx pos ?tr1) pos ?tr1)
          (close_with ctx end_option)"
      by (simp add: option_body_def notify_def deref_def and_then_def)
    have "post (and_also (answer ctx tr begin_option) (call_group_or_option s ctx pos ?tr1) pos ?tr1)
        (progress pos ?tr1)"
      using steadyD [OF goo, of s ctx pos ?tr1] by (simp add: grows_refl)
    then show ?thesis
      unfolding eq by (rule close_later) simp_all
  qed
qed

lemma steady_advance: "steady (advance n k)"
proof (induction n arbitrary: k)
  case 0
  show ?case by (simp add: steady_def)
next
  case (Suc n)
  show ?case
    by (cases k)
       (simp_all add: Suc.IH steady_element_body steady_repetition_body
          steady_concatenation_next_body steady_concatenation_body steady_alternation_next_body
          steady_alternation_body steady_group_or_option_body steady_group_body
          steady_option_body)
qed

lemma steady_advancers:
  "steady (advance_element n)" "steady (advance_repetition n)" "steady (concatenation_next n)"
  "steady (advance_concatenation n)" "steady (alternation_next n)" "steady (advance_alternation n)"
  "steady (advance_group_or_option n)" "steady (advance_group n)" "steady (advance_option n)"
  by (simp_all add: steady_advance advance_element_def advance_repetition_def
        concatenation_next_def advance_concatenation_def alternation_next_def
        advance_alternation_def advance_group_or_option_def advance_group_def advance_option_def)

lemma brackets_none [simp]: "brackets ctx b end_event tr (False, pos, tr)"
  by (simp add: brackets_def)

lemma close_frames:
  assumes m: "post m (progress pos (tr @ [b]))"
  shows "post (and_then m (close_with ctx end_event))
     (\<lambda>(ok, pos', tr'). framed ctx b end_event tr ok tr')"
  using m
proof (simp, elim post_mono)
  fix x :: advance
  obtain success p t where x: "x = (success, p, t)" by (cases x) auto
  assume "progress pos (tr @ [b]) x"
  with x obtain mid where mid: "t = (tr @ [b]) @ mid" "balanced mid"
    by (auto simp: grows_def)
  have "framed ctx b end_event tr (answer ctx t (end_event success) \<and> success) (t @ [end_event success])"
    unfolding framed_def using mid by (intro exI [of _ mid] exI [of _ success]) auto
  then show "post (close_with ctx end_event x) (\<lambda>(ok, pos', tr'). framed ctx b end_event tr ok tr')"
    by (simp add: x)
qed

lemma close_framed:
  assumes m: "post m (progress pos (tr @ [b]))"
  shows "post (and_then m (close_with ctx end_event)) (brackets ctx b end_event tr)"
  by (rule post_mono [OF close_frames [OF m]]) (auto simp: brackets_def)

lemma brackets_repetition_body:
  assumes el: "steady call_element"
  shows "post (repetition_body call_element s ctx pos tr) (brackets ctx begin_repetition end_repetition tr)"
proof -
  let ?tr1 = "tr @ [begin_repetition]"
  let ?success = "answer ctx tr begin_repetition"
  let ?m = "and_then (advance_repeat s ctx pos ?tr1)
      (\<lambda>(ignored, p, t). and_also ?success (call_element s ctx p t) p t)"
  have "post ?m (progress pos ?tr1)"
    by (rule and_then_later [OF steadyD [OF steady_repeat]])
       (auto intro!: and_also_later steady_later [OF el] simp del: post_and_also)
  then have "post (and_then ?m (close_with ctx end_repetition))
      (brackets ctx begin_repetition end_repetition tr)"
    by (rule close_framed)
  then show ?thesis
    by (simp add: repetition_body_def notify_def split_beta)
qed

lemma brackets_bracket_body:
  assumes first: "steady call_first" and nxt: "steady call_next"
  shows "post (and_then (and_also success (call_first s ctx pos (tr @ [b])) pos (tr @ [b]))
        (\<lambda>(success, pos, tr).
           and_then (and_also success
                       (advance_repetition_by_range unlimited_range (call_next s ctx) pos tr) pos tr)
             (close_with ctx end_event)))
      (brackets ctx b end_event tr)"
proof -
  let ?tr1 = "tr @ [b]"
  let ?m = "and_then (and_also success (call_first s ctx pos ?tr1) pos ?tr1)
      (\<lambda>(success, p, t).
         and_also success (advance_repetition_by_range unlimited_range (call_next s ctx) p t) p t)"
  have drv: "post (advance_repetition_by_range unlimited_range (call_next s ctx) p t) (progress p t)" for p t
    by (rule driver_progress) (rule steadyD [OF nxt])
  have drv': "post (advance_repetition_by_range unlimited_range (call_next s ctx) p t) (progress pos ?tr1)"
    if "pos \<le> p" "grows ?tr1 t" for p t
    using drv [of p t] that by (elim post_mono) (auto intro: grows_trans)
  have "post (and_also success (call_first s ctx pos ?tr1) pos ?tr1) (progress pos ?tr1)"
    using steadyD [OF first, of s ctx pos ?tr1] by (simp add: grows_refl)
  then have "post ?m (progress pos ?tr1)"
    by (rule and_then_later) (auto intro: drv')
  then have "post (and_then ?m (close_with ctx end_event)) (brackets ctx b end_event tr)"
    by (rule close_framed)
  then show ?thesis
    by (simp add: split_beta)
qed

lemma brackets_concatenation_body:
  assumes rep: "steady call_repetition" and nxt: "steady call_next"
  shows "post (concatenation_body call_repetition call_next s ctx pos tr)
     (brackets ctx begin_concatenation end_concatenation tr)"
proof (cases "pos < length s")
  case False
  then show ?thesis by (simp add: concatenation_body_def)
next
  case True
  then have eq: "concatenation_body call_repetition call_next s ctx pos tr =
      and_then (and_also (answer ctx tr begin_concatenation)
          (call_repetition s ctx pos (tr @ [begin_concatenation])) pos (tr @ [begin_concatenation]))
        (\<lambda>(success, pos, tr).
           and_then (and_also success
                       (advance_repetition_by_range unlimited_range (call_next s ctx) pos tr) pos tr)
             (close_with ctx end_concatenation))"
    by (simp add: concatenation_body_def notify_def)
  show ?thesis
    unfolding eq using rep nxt by (rule brackets_bracket_body)
qed

lemma brackets_alternation_body:
  assumes con: "steady call_concatenation" and nxt: "steady call_next"
  shows "post (alternation_body call_concatenation call_next s ctx pos tr)
     (brackets ctx begin_alternation end_alternation tr)"
proof (cases "pos < length s")
  case False
  then show ?thesis by (simp add: alternation_body_def)
next
  case True
  then have eq: "alternation_body call_concatenation call_next s ctx pos tr =
      and_then (and_also (answer ctx tr begin_alternation)
          (call_concatenation s ctx pos (tr @ [begin_alternation])) pos (tr @ [begin_alternation]))
        (\<lambda>(success, pos, tr).
           and_then (and_also success
                       (advance_repetition_by_range unlimited_range (call_next s ctx) pos tr) pos tr)
             (close_with ctx end_alternation))"
    by (simp add: alternation_body_def notify_def)
  show ?thesis
    unfolding eq using con nxt by (rule brackets_bracket_body)
qed

lemma brackets_group_body:
  assumes goo: "steady call_group_or_option"
  shows "post (group_body call_group_or_option s ctx pos tr) (brackets ctx begin_group end_group tr)"
proof (cases "pos < length s \<and> s ! pos = CHR ''(''")
  case False
  then show ?thesis by (auto simp: group_body_def)
next
  case True
  let ?tr1 = "tr @ [begin_group]"
  from True have eq: "group_body call_group_or_option s ctx pos tr =
      and_then (and_also (answer ctx tr begin_group) (call_group_or_option s ctx pos ?tr1) pos ?tr1)
        (close_with ctx end_group)"
    by (simp add: group_body_def notify_def deref_def and_then_def)
  have "post (and_also (answer ctx tr begin_group) (call_group_or_option s ctx pos ?tr1) pos ?tr1)
      (progress pos ?tr1)"
    using steadyD [OF goo, of s ctx pos ?tr1] by (simp add: grows_refl)
  then show ?thesis
    unfolding eq by (rule close_framed)
qed

lemma brackets_option_body:
  assumes goo: "steady call_group_or_option"
  shows "post (option_body call_group_or_option s ctx pos tr) (brackets ctx begin_option end_option tr)"
proof (cases "pos < length s \<and> s ! pos = CHR ''[''")
  case False
  then show ?thesis by (auto simp: option_body_def)
next
  case True
  let ?tr1 = "tr @ [begin_option]"
  from True have eq: "option_body call_group_or_option s ctx pos tr =
      and_then (and_also (answer ctx tr begin_option) (call_group_or_option s ctx pos ?tr1) pos ?tr1)
        (close_with ctx end_option)"
    by (simp add: option_body_def notify_def deref_def and_then_def)
  have "post (and_also (answer ctx tr begin_option) (call_group_or_option s ctx pos ?tr1) pos ?tr1)
      (progress pos ?tr1)"
    using steadyD [OF goo, of s ctx pos ?tr1] by (simp add: grows_refl)
  then show ?thesis
    unfolding eq by (rule close_framed)
qed

lemma brackets_advancers:
  "post (advance_repetition n s ctx pos tr) (brackets ctx begin_repetition end_repetition tr)"
  "post (advance_concatenation n s ctx pos tr) (brackets ctx begin_concatenation end_concatenation tr)"
  "post (advance_alternation n s ctx pos tr) (brackets ctx begin_alternation end_alternation tr)"
  "post (advance_group n s ctx pos tr) (brackets ctx begin_group end_group tr)"
  "post (advance_option n s ctx pos tr) (brackets ctx begin_option end_option tr)"
  by (cases n; simp add: advance_0 advance_Suc brackets_repetition_body
        brackets_concatenation_body brackets_alternation_body brackets_group_body
        brackets_option_body steady_advancers)+

lemma steady_elements: "steady (advance_elements n)"
  unfolding steady_def
proof (intro allI)
  fix s :: string and ctx :: observer and pos :: nat and tr :: "event list"
  have "post (advance_alternation n s ctx pos tr) (\<lambda>x. post (case x of (ok, p, tr') \<Rightarrow>
        if \<not> ok then Inr (False, pos, tr')
        else (let p = skip_comment_whitespace s p
              in Inr (fst (compare_and_assign pos p), snd (compare_and_assign pos p), tr')))
      (progress pos tr))"
  proof (rule post_mono [OF steadyD [OF steady_advancers(6)]])
    fix x :: advance
    obtain ok p t where x: "x = (ok, p, t)" by (cases x) auto
    assume "progress pos tr x"
    with x have a: "pos \<le> p" "grows tr t" by simp_all
    have "p \<le> skip_comment_whitespace s p" by (rule skip_comment_whitespace_ge)
    with a show "post (case x of (ok, p, tr') \<Rightarrow>
        if \<not> ok then Inr (False, pos, tr')
        else (let p = skip_comment_whitespace s p
              in Inr (fst (compare_and_assign pos p), snd (compare_and_assign pos p), tr')))
      (progress pos tr)"
      by (simp add: x Let_def compare_and_assign_def)
  qed
  then show "post (advance_elements n s ctx pos tr) (progress pos tr)"
    by (simp add: advance_elements_def)
qed

lemma advance_defined_as_ge: "pos \<le> fst (snd (advance_defined_as s pos))"
proof -
  let ?p = "skip_comment_whitespace s pos"
  have a: "pos \<le> ?p" by (rule skip_comment_whitespace_ge)
  have b: "Suc ?p \<le> skip_comment_whitespace s (Suc ?p)" by (rule skip_comment_whitespace_ge)
  have c: "Suc (Suc ?p) \<le> skip_comment_whitespace s (Suc (Suc ?p))" by (rule skip_comment_whitespace_ge)
  from a b c show ?thesis
    by (auto simp: advance_defined_as_def Let_def compare_and_assign_def)
qed

text \<open>The end of \<^verbatim>\<open>advance_rule\<close>, after \<^verbatim>\<open>advance_elements\<close>.\<close>

lemma rule_end_core:
  assumes le: "pos < p" and g: "grows (tr @ [b]) t"
    and b: "begins b = Some k" and e: "\<And>success. ends (end_event success) = Some k"
  shows "post (finish (answer ctx t (end_event success) \<and> success) pos
        (if success then skip_linear_whitespace s p else p) (t @ [end_event success]))
      (\<lambda>r. progress pos tr r \<and> brackets ctx b end_event tr r)"
proof -
  let ?p2 = "if success then skip_linear_whitespace s p else p"
  let ?ok = "answer ctx t (end_event success) \<and> success"
  have "p \<le> ?p2" using skip_linear_whitespace_ge [of p s] by simp
  with le have p2: "pos < ?p2" by linarith
  from g obtain mid where mid: "t = (tr @ [b]) @ mid" "balanced mid"
    by (auto simp: grows_def)
  have fr: "framed ctx b end_event tr ?ok (t @ [end_event success])"
    unfolding framed_def using mid by (intro exI [of _ mid] exI [of _ success]) auto
  have gr: "grows tr (t @ [end_event success])"
    using g b e by (rule grows_frame)
  show ?thesis
  proof (cases success)
    case s: True
    show ?thesis
    proof (cases "answer ctx t (end_event True)")
      case True
      then show ?thesis
        using s fr p2 gr by (simp add: brackets_def)
    next
      case False
      then show ?thesis
        using s fr gr by (simp add: brackets_def)
    qed
  next
    case False
    then show ?thesis
      using fr gr by (simp add: brackets_def)
  qed
qed

lemma rule_end:
  assumes le: "pos < p0" "p0 \<le> p" and g: "grows (tr @ [b]) t"
    and b: "begins b = Some k" and e: "\<And>success. ends (end_event success) = Some k"
  shows "post (let (success, p) =
               (if p < length s
                then (if success then advance_comment_newline s p else (False, p))
                else (success, p));
             p = (if success then skip_linear_whitespace s p else p);
             (accepted, tr') = notify ctx t (end_event success)
         in finish (accepted \<and> success) pos p tr')
      (\<lambda>r. progress pos tr r \<and> brackets ctx b end_event tr r)"
proof -
  from le have lt: "pos < p" by simp
  have "p \<le> snd (advance_comment_newline s p)" by (rule advance_comment_newline_ge)
  with lt have lt': "pos < snd (advance_comment_newline s p)" by simp
  note core = rule_end_core [where end_event = end_event and b = b and tr = tr and t = t and k = k and pos = pos, OF _ g b e]
  show ?thesis
  proof (cases "p < length s")
    case False
    then show ?thesis
      using core [OF lt, where success = success and s = s and ctx = ctx]
      by (simp add: Let_def notify_def del: post_finish)
  next
    case True
    show ?thesis
    proof (cases success)
      case False
      with True show ?thesis
        using core [OF lt, where success = False and s = s and ctx = ctx]
        by (simp add: Let_def notify_def del: post_finish)
    next
      case s: True
      with True show ?thesis
        using core [OF lt', where success = "fst (advance_comment_newline s p)" and s = s and ctx = ctx]
        by (simp add: Let_def notify_def split_beta del: post_finish)
    qed
  qed
qed

lemma rule_progress_brackets:
  "post (advance_rule n s ctx pos tr)
     (\<lambda>r. progress pos tr r
        \<and> (\<exists>rulename_first rulename_last incremental.
             brackets ctx (begin_rule rulename_first rulename_last incremental)
               (end_rule rulename_first rulename_last incremental) tr r))"
proof (cases "pos < length s")
  case False
  then show ?thesis by (simp add: advance_rule_def grows_refl)
next
  case True
  show ?thesis
  proof (cases "advance_rulename_helper s pos tr")
    case (Inl e)
    with True show ?thesis by (simp add: advance_rule_def)
  next
    case (Inr h)
    obtain ok1 p1 rf rl where h: "h = (ok1, p1, rf, rl)" by (cases h) auto
    from rulename_helper_ge [of s pos tr] Inr h have p1: "ok1 \<longrightarrow> pos < p1" by simp
    obtain ok2 p2 inc where d: "advance_defined_as s p1 = (ok2, p2, inc)"
      by (cases "advance_defined_as s p1") auto
    from advance_defined_as_ge [of p1 s] d have p2: "p1 \<le> p2" by simp
    show ?thesis
    proof (cases "ok1 \<and> ok2")
      case False
      with True Inr h d show ?thesis by (auto simp: advance_rule_def grows_refl)
    next
      case ok: True
      let ?b = "begin_rule rf rl inc"
      let ?e = "end_rule rf rl inc"
      let ?tr1 = "tr @ [?b]"
      let ?Q = "\<lambda>r. progress pos tr r \<and> brackets ctx ?b ?e tr r"
      let ?rest = "\<lambda>(success, p, t).
          let (success, p) =
                 (if p < length s
                  then (if success then advance_comment_newline s p else (False, p))
                  else (success, p));
               p = (if success then skip_linear_whitespace s p else p);
               (accepted, tr') = notify ctx t (?e success)
          in finish (accepted \<and> success) pos p tr'"
      from ok p1 have lt: "pos < p1" by simp
      have inner: "post (and_also (answer ctx tr ?b) (advance_elements n s ctx p2 ?tr1) p2 ?tr1)
          (progress p2 ?tr1)"
        using steadyD [OF steady_elements, of n s ctx p2 ?tr1] by (simp add: grows_refl)
      have "post (and_also (answer ctx tr ?b) (advance_elements n s ctx p2 ?tr1) p2 ?tr1)
          (\<lambda>x. post (?rest x) ?Q)"
        using inner
      proof (rule post_mono)
        fix x :: advance
        obtain success p t where x: "x = (success, p, t)" by (cases x) auto
        assume "progress p2 ?tr1 x"
        with x p2 have a: "p1 \<le> p" "grows ?tr1 t" by simp_all
        have "post (let (success, p) =
                 (if p < length s
                  then (if success then advance_comment_newline s p else (False, p))
                  else (success, p));
               p = (if success then skip_linear_whitespace s p else p);
               (accepted, tr') = notify ctx t (?e success)
           in finish (accepted \<and> success) pos p tr') ?Q"
          using lt a by (rule rule_end) simp_all
        then show "post (?rest x) ?Q"
          by (simp only: x prod.case)
      qed
      then have "post (advance_rule n s ctx pos tr) ?Q"
        using True Inr h d ok
        by (simp add: advance_rule_def notify_def Let_def split_beta del: post_and_also post_finish)
      then show ?thesis
        by (rule post_mono) blast
    qed
  qed
qed

lemma steady_rule: "steady (advance_rule n)"
  unfolding steady_def
  by (intro allI post_mono [OF rule_progress_brackets]) simp

lemma steady_rulelist_next: "steady (rulelist_next n)"
  unfolding steady_def
proof (intro allI)
  fix s :: string and ctx :: observer and pos :: nat and tr :: "event list"
  have "post (advance_rule n s ctx pos tr) (\<lambda>x. post (case x of (ok, p, tr') \<Rightarrow>
       if ok then Inr (fst (compare_and_assign pos p), snd (compare_and_assign pos p), tr')
       else
         (let p = skip_comment_whitespace s p
          in if p < length s then
               (if \<not> fst (advance_comment_newline s p) then Inr (False, pos, tr')
                else
                  (let p = snd (advance_comment_newline s p)
                   in Inr (fst (compare_and_assign pos p), snd (compare_and_assign pos p), tr')))
             else Inr (fst (compare_and_assign pos p), snd (compare_and_assign pos p), tr')))
      (progress pos tr))"
  proof (rule post_mono [OF steadyD [OF steady_rule]])
    fix x :: advance
    obtain ok p t where x: "x = (ok, p, t)" by (cases x) auto
    assume "progress pos tr x"
    with x have a: "pos \<le> p" "grows tr t" by simp_all
    have b: "p \<le> skip_comment_whitespace s p" by (rule skip_comment_whitespace_ge)
    have c: "skip_comment_whitespace s p \<le> snd (advance_comment_newline s (skip_comment_whitespace s p))"
      by (rule advance_comment_newline_ge)
    from a b c show "post (case x of (ok, p, tr') \<Rightarrow>
       if ok then Inr (fst (compare_and_assign pos p), snd (compare_and_assign pos p), tr')
       else
         (let p = skip_comment_whitespace s p
          in if p < length s then
               (if \<not> fst (advance_comment_newline s p) then Inr (False, pos, tr')
                else
                  (let p = snd (advance_comment_newline s p)
                   in Inr (fst (compare_and_assign pos p), snd (compare_and_assign pos p), tr')))
             else Inr (fst (compare_and_assign pos p), snd (compare_and_assign pos p), tr')))
      (progress pos tr)"
      by (simp add: x Let_def compare_and_assign_def)
  qed
  then show "post (rulelist_next n s ctx pos tr) (progress pos tr)"
    by (simp add: rulelist_next_def)
qed

lemma rulelist_progress_framed:
  "post (advance_rulelist n s ctx pos tr)
     (\<lambda>r. progress pos tr r
        \<and> (case r of (ok, pos', tr') \<Rightarrow> framed ctx begin_document end_document tr ok tr'))"
proof -
  let ?tr1 = "tr @ [begin_document]"
  let ?m = "and_also (answer ctx tr begin_document)
      (advance_repetition_by_range (make_range 1) (rulelist_next n s ctx) pos ?tr1) pos ?tr1"
  have "post (advance_repetition_by_range (make_range 1) (rulelist_next n s ctx) pos ?tr1)
      (progress pos ?tr1)"
    by (rule driver_progress) (rule steadyD [OF steady_rulelist_next])
  then have m: "post ?m (progress pos ?tr1)"
    by (simp add: grows_refl)
  have eq: "advance_rulelist n s ctx pos tr = and_then ?m (close_with ctx end_document)"
    by (simp add: advance_rulelist_def notify_def)
  have a: "post (and_then ?m (close_with ctx end_document)) (progress pos tr)"
    using m by (rule close_later) simp_all
  have b: "post (and_then ?m (close_with ctx end_document))
      (\<lambda>(ok, pos', tr'). framed ctx begin_document end_document tr ok tr')"
    using m by (rule close_frames)
  show ?thesis
  proof (cases "and_then ?m (close_with ctx end_document)")
    case (Inl e)
    then show ?thesis by (simp only: eq post_simps)
  next
    case (Inr r)
    with a b show ?thesis by (simp only: eq post_simps)
  qed
qed

lemma begins_not_ends: "begins ev = Some b \<Longrightarrow> ends ev = None"
  by (cases ev) simp_all

lemma nested_counts: "nested open_brackets evs \<Longrightarrow> mset (begun evs) + mset open_brackets = mset (ended evs)"
proof (induction evs arbitrary: open_brackets)
  case Nil
  then show ?case by (simp add: begun_def ended_def map_filter_simps)
next
  case (Cons ev evs)
  show ?case
  proof (cases "begins ev")
    case (Some b)
    with Cons.prems have "nested (b # open_brackets) evs" by simp
    then have "mset (begun evs) + mset (b # open_brackets) = mset (ended evs)" by (rule Cons.IH)
    with Some begins_not_ends [OF Some] show ?thesis
      by (simp add: begun_def ended_def map_filter_simps)
  next
    case None
    show ?thesis
    proof (cases "ends ev")
      case n: None
      with None Cons.prems have "nested open_brackets evs" by simp
      then have "mset (begun evs) + mset open_brackets = mset (ended evs)" by (rule Cons.IH)
      with None n show ?thesis
        by (simp add: begun_def ended_def map_filter_simps)
    next
      case (Some b)
      with None Cons.prems obtain others where i: "open_brackets = b # others" and r: "nested others evs"
        by (cases open_brackets) auto
      from r have "mset (begun evs) + mset others = mset (ended evs)" by (rule Cons.IH)
      with None Some i show ?thesis
        by (simp add: begun_def ended_def map_filter_simps)
    qed
  qed
qed

lemma grows_well_bracketed: "grows tr tr' \<Longrightarrow> well_bracketed tr tr'"
  using nested_counts [of "[]"] by (auto simp: grows_def well_bracketed_def balanced_def)

lemma postD: "post m Q \<Longrightarrow> m = Inr x \<Longrightarrow> Q x"
  by simp

lemma steady_well_bracketed:
  "steady f \<Longrightarrow> f s ctx pos tr = Inr (ok, pos', tr') \<Longrightarrow> well_bracketed tr tr'"
  using postD [OF steadyD, of f s ctx pos tr "(ok, pos', tr')"]
  by (simp add: grows_well_bracketed)

lemma bracketsD:
  "post m (brackets ctx b end_event tr) \<Longrightarrow> m = Inr (ok, pos', tr') \<Longrightarrow>
     (tr' = tr \<and> \<not> ok) \<or> framed ctx b end_event tr ok tr'"
  by (simp add: brackets_def)

subsection \<open>Enough recursion depth\<close>

text \<open>
  The recursion of the advancers passes through \<^verbatim>\<open>advance_group_or_option\<close>, which
  consumes the opening bracket before it calls \<^verbatim>\<open>advance_alternation\<close>; between two such
  calls the depth grows by eight. So a bound of eight levels for each character of the input,
  and eight more, is never reached.
\<close>

lemma alive_simps [simp]:
  "alive (Inr x)"
  "alive (Inl (end_dereferenced t))"
  "\<not> alive (Inl fuel_exhausted)"
  by (simp_all add: alive_def)

lemma alive_deref [simp]: "alive (deref s p tr)"
  by (simp add: deref_def)

lemma alive_finish [simp]: "alive (finish success pos p tr)"
  by (simp add: finish_def)

lemma alive_close_with [simp]: "alive (close_with ctx end_event r)"
  by (cases r) (simp add: close_with_def)

lemma post_True [simp]: "post m (\<lambda>x. True)"
  by (cases m) simp_all

lemma post_True3 [simp]: "post m (\<lambda>(ok, p, t). True)"
  by (cases m) auto

lemma alive_and_then:
  "alive m \<Longrightarrow> post m (\<lambda>x. alive (f x)) \<Longrightarrow> alive (and_then m f)"
  by (cases m) (auto simp: and_then_def alive_def)

lemma alive_or_else:
  "alive m \<Longrightarrow> post m (\<lambda>(ok, p, t). alive (f p t)) \<Longrightarrow> alive (or_else m f)"
  by (cases m) (auto simp: or_else_def)

lemma alive_and_also: "alive m \<Longrightarrow> alive (and_also success m pos tr)"
  by (simp add: and_also_def)

text \<open>The advancers outside the recursion always return or read at the end.\<close>

lemma alive_number_sequence: "alive (number_sequence s ctx flag success p tr)"
proof (induction s ctx flag success p tr rule: number_sequence.induct)
  case (1 s ctx flag success p tr)
  show ?case
  proof (cases "p < length s \<and> s ! p = CHR ''.'' \<and> Suc p < length s
      \<and> is_digit_func flag (s ! Suc p) \<and> fst (advance_func flag s (Suc p))")
    case True
    then have "alive (number_sequence s ctx flag
        (fst (and_notify success ctx tr (next_number flag (Suc p) (snd (advance_func flag s (Suc p))))))
        (snd (advance_func flag s (Suc p)))
        (snd (and_notify success ctx tr (next_number flag (Suc p) (snd (advance_func flag s (Suc p)))))))"
      by (intro "1.IH" [of "CHR ''.''" "s ! Suc p"]) (simp_all add: deref_def)
    with True show ?thesis
      by (subst number_sequence.simps) (simp add: deref_def and_then_def)
  next
    case False
    then show ?thesis
      by (subst number_sequence.simps) (auto simp: deref_def and_then_def)
  qed
qed

lemma alive_leaves:
  "alive (advance_prose s ctx pos tr)"
  "alive (advance_number s ctx pos tr)"
  "alive (advance_quoted_string s ctx pos tr)"
  "alive (advance_repeat s ctx pos tr)"
  "alive (advance_rulename s ctx pos tr)"
proof -
  show "alive (advance_prose s ctx pos tr)"
    by (simp add: advance_prose_def deref_def and_then_def Let_def split_beta)
  have "alive (number_value s ctx flag pos p tr)" for flag p
    using alive_number_sequence
    by (auto simp: number_value_def deref_def Let_def split_beta intro!: alive_and_then)
  then show "alive (advance_number s ctx pos tr)"
    by (simp add: advance_number_def deref_def and_then_def Let_def)
  show "alive (advance_quoted_string s ctx pos tr)"
    by (simp add: advance_quoted_string_def deref_def and_then_def Let_def split_beta
          split: sum.splits)
  show "alive (advance_repeat s ctx pos tr)"
    by (simp add: advance_repeat_def repeat_bounds_def deref_def and_then_def Let_def split_beta)
  show "alive (advance_rulename s ctx pos tr)"
    by (simp add: advance_rulename_def advance_rulename_helper_def deref_def and_then_def
          Let_def split_beta)
qed

lemma alive_repeat_op:
  assumes op: "\<And>p st. post (op p st) (progress p st)"
    and live: "\<And>p st. pos \<le> p \<Longrightarrow> alive (op p st)"
  shows "pos \<le> p \<Longrightarrow> alive (repeat_op op high applied p st)"
  using op live
proof (induction op high applied p st rule: repeat_op.induct)
  case (1 op' high applied p st)
  show ?case
  proof (cases "applied < high")
    case False
    then show ?thesis by (subst repeat_op.simps) simp
  next
    case True
    show ?thesis
    proof (cases "op' p st")
      case (Inl e)
      from "1.prems"(3) [OF "1.prems"(1), of st] Inl have "e \<noteq> fuel_exhausted"
        by (auto simp: alive_def)
      with True Inl show ?thesis by (subst repeat_op.simps) (simp add: alive_def)
    next
      case (Inr r)
      obtain ok p' st' where r: "r = (ok, p', st')" by (cases r) auto
      from "1.prems"(2) [of p st] Inr r have step: "p \<le> p'" by simp
      show ?thesis
      proof (cases ok)
        case False
        with True Inr r show ?thesis by (subst repeat_op.simps) simp
      next
        case ok: True
        from step "1.prems"(1) have "pos \<le> p'" by simp
        then have "alive (repeat_op op' high (applied + 1) p' st')"
          using True Inr r ok "1.prems"(2,3) by (intro "1.IH") simp_all
        with True Inr r ok show ?thesis by (subst repeat_op.simps) simp
      qed
    qed
  qed
qed

lemma alive_driver:
  assumes op: "\<And>p st. post (op p st) (progress p st)"
    and live: "\<And>p st. pos \<le> p \<Longrightarrow> alive (op p st)"
  shows "alive (advance_repetition_by_range bounds op pos st)"
proof -
  have "alive (repeat_op op (snd bounds) 0 pos st)"
    by (rule alive_repeat_op [where pos = pos]) (use op live in simp_all)
  then show ?thesis
    by (auto simp: advance_repetition_by_range_def split_beta intro!: alive_and_then)
qed

text \<open>
  An advancer is lively on the last \<open>r\<close> positions of the input when none of its calls
  there ends for lack of fuel.
\<close>

lemma livelyD: "lively s r f \<Longrightarrow> length s - pos \<le> r \<Longrightarrow> alive (f s ctx pos tr)"
  by (simp add: lively_def)

lemma lively_later:
  assumes "lively s r f" "length s - pos \<le> r" "pos \<le> p"
  shows "alive (f s ctx p tr)"
proof -
  from assms(2,3) have "length s - p \<le> r" by arith
  with assms(1) show ?thesis by (rule livelyD)
qed


lemma lively_element_body:
  assumes g: "lively s r call_group" "steady call_group"
    and o: "lively s r call_option" "steady call_option"
  shows "lively s r (element_body call_group call_option)"
  unfolding lively_def
proof (intro allI impI)
  fix ctx :: observer and pos :: nat and tr :: "event list"
  assume r: "length s - pos \<le> r"
  note later = lively_later [OF _ r]
  show "alive (element_body call_group call_option s ctx pos tr)"
  proof (cases "pos < length s")
    case False
    then show ?thesis by (simp add: element_body_def)
  next
    case True
    then have eq: "element_body call_group call_option s ctx pos tr =
        or_else (advance_rulename s ctx pos tr) (\<lambda>pos tr.
        or_else (call_group s ctx pos tr) (\<lambda>pos tr.
        or_else (call_option s ctx pos tr) (\<lambda>pos tr.
        or_else (advance_number s ctx pos tr) (\<lambda>pos tr.
        or_else (advance_quoted_string s ctx pos tr) (\<lambda>pos tr.
        advance_prose s ctx pos tr)))))"
      by (simp add: element_body_def)
    have tail4: "alive (or_else (advance_quoted_string s ctx p t) (\<lambda>pos tr. advance_prose s ctx pos tr))"
      for p t
      by (rule alive_or_else) (simp_all add: alive_leaves)
    have tail3: "alive (or_else (advance_number s ctx p t) (\<lambda>pos tr.
        or_else (advance_quoted_string s ctx pos tr) (\<lambda>pos tr. advance_prose s ctx pos tr)))" for p t
      by (rule alive_or_else) (simp_all add: alive_leaves tail4)
    have tail2: "alive (or_else (call_option s ctx p t) (\<lambda>pos tr.
        or_else (advance_number s ctx pos tr) (\<lambda>pos tr.
        or_else (advance_quoted_string s ctx pos tr) (\<lambda>pos tr. advance_prose s ctx pos tr))))"
      if "pos \<le> p" for p t
      using later [OF o(1) that] by (intro alive_or_else) (simp_all add: tail3)
    have tail1: "alive (or_else (call_group s ctx p t) (\<lambda>pos tr.
        or_else (call_option s ctx pos tr) (\<lambda>pos tr.
        or_else (advance_number s ctx pos tr) (\<lambda>pos tr.
        or_else (advance_quoted_string s ctx pos tr) (\<lambda>pos tr. advance_prose s ctx pos tr)))))"
      if "pos \<le> p" for p t
    proof (rule alive_or_else)
      show "alive (call_group s ctx p t)" using g(1) that by (rule later)
      show "post (call_group s ctx p t) (\<lambda>(ok, p', t'). alive (or_else (call_option s ctx p' t') (\<lambda>pos tr.
        or_else (advance_number s ctx pos tr) (\<lambda>pos tr.
        or_else (advance_quoted_string s ctx pos tr) (\<lambda>pos tr. advance_prose s ctx pos tr)))))"
        using that by (intro post_mono [OF steadyD [OF g(2)]]) (auto intro: tail2)
    qed
    show ?thesis
      unfolding eq
    proof (rule alive_or_else)
      show "alive (advance_rulename s ctx pos tr)" by (rule alive_leaves)
      show "post (advance_rulename s ctx pos tr) (\<lambda>(ok, p', t'). alive (or_else (call_group s ctx p' t') (\<lambda>pos tr.
        or_else (call_option s ctx pos tr) (\<lambda>pos tr.
        or_else (advance_number s ctx pos tr) (\<lambda>pos tr.
        or_else (advance_quoted_string s ctx pos tr) (\<lambda>pos tr. advance_prose s ctx pos tr))))))"
        by (intro post_mono [OF steadyD [OF steady_rulename]]) (auto intro: tail1)
    qed
  qed
qed

lemma lively_repetition_body:
  assumes el: "lively s r call_element"
  shows "lively s r (repetition_body call_element)"
  unfolding lively_def
proof (intro allI impI)
  fix ctx :: observer and pos :: nat and tr :: "event list"
  assume r: "length s - pos \<le> r"
  have "alive (and_then (advance_repeat s ctx pos t) (\<lambda>(ignored, p', t').
      and_then (and_also success (call_element s ctx p' t') p' t') (close_with ctx end_repetition)))"
    for t success
  proof (rule alive_and_then)
    show "alive (advance_repeat s ctx pos t)" by (rule alive_leaves)
    show "post (advance_repeat s ctx pos t) (\<lambda>x. alive (case x of (ignored, p', t') \<Rightarrow>
        and_then (and_also success (call_element s ctx p' t') p' t') (close_with ctx end_repetition)))"
    proof (rule post_mono [OF steadyD [OF steady_repeat]])
      fix x :: advance
      obtain ok p' t' where x: "x = (ok, p', t')" by (cases x) auto
      assume "progress pos t x"
      with x have "pos \<le> p'" by simp
      then have "alive (call_element s ctx p' t')" using el r by (intro lively_later)
      then show "alive (case x of (ignored, p', t') \<Rightarrow>
        and_then (and_also success (call_element s ctx p' t') p' t') (close_with ctx end_repetition))"
        by (simp add: x) (intro alive_and_then alive_and_also, simp_all)
    qed
  qed
  then show "alive (repetition_body call_element s ctx pos tr)"
    by (simp add: repetition_body_def split_beta)
qed


lemma lively_concatenation_next_body:
  assumes rep: "lively s r call_repetition"
  shows "lively s r (concatenation_next_body call_repetition)"
  unfolding lively_def
proof (intro allI impI)
  fix ctx :: observer and pos :: nat and tr :: "event list"
  assume r: "length s - pos \<le> r"
  let ?ws = "\<lambda>pos tr. Inr (fst (advance_comment_whitespace s pos), snd (advance_comment_whitespace s pos), tr)
      :: fault + advance"
  have ws: "post (?ws p t) (progress p t)" for p t
    by (simp add: advance_comment_whitespace_ge grows_refl)
  have drv: "post (advance_repetition_by_range (make_range 1) ?ws pos tr) (progress pos tr)"
    using ws by (rule driver_progress)
  have live: "alive (advance_repetition_by_range (make_range 1) ?ws pos tr)"
    using ws by (rule alive_driver) simp
  show "alive (concatenation_next_body call_repetition s ctx pos tr)"
    unfolding concatenation_next_body_def using live
  proof (rule alive_and_then)
    show "post (advance_repetition_by_range (make_range 1) ?ws pos tr) (\<lambda>x. alive (case x of (ok, p, tr') \<Rightarrow>
          if \<not> ok then Inr (False, pos, tr')
          else and_then (call_repetition s ctx p tr') (\<lambda>(ok, p, tr').
            if \<not> ok then Inr (False, pos, tr')
            else Inr (fst (compare_and_assign pos p), snd (compare_and_assign pos p), tr'))))"
      using drv
    proof (rule post_mono)
      fix x :: advance
      obtain ok p t where x: "x = (ok, p, t)" by (cases x) auto
      assume "progress pos tr x"
      with x have "pos \<le> p" by simp
      then have "alive (call_repetition s ctx p t)" using rep r by (intro lively_later)
      then show "alive (case x of (ok, p, tr') \<Rightarrow>
          if \<not> ok then Inr (False, pos, tr')
          else and_then (call_repetition s ctx p tr') (\<lambda>(ok, p, tr').
            if \<not> ok then Inr (False, pos, tr')
            else Inr (fst (compare_and_assign pos p), snd (compare_and_assign pos p), tr')))"
        by (auto simp: x split_beta intro!: alive_and_then)
    qed
  qed
qed

lemma alive_bracket_body:
  assumes first: "lively s r call_first" "steady call_first"
    and nxt: "lively s r call_next" "steady call_next"
    and r: "length s - pos \<le> r"
  shows "alive (and_then (and_also success (call_first s ctx pos tr) pos tr)
        (\<lambda>(success, pos, tr).
           and_then (and_also success
                       (advance_repetition_by_range unlimited_range (call_next s ctx) pos tr) pos tr)
             (close_with ctx end_event)))"
proof (rule alive_and_then)
  show "alive (and_also success (call_first s ctx pos tr) pos tr)"
    using livelyD [OF first(1) r] by (rule alive_and_also)
  have "post (and_also success (call_first s ctx pos tr) pos tr) (progress pos tr)"
    using steadyD [OF first(2), of s ctx pos tr] by (simp add: grows_refl)
  then show "post (and_also success (call_first s ctx pos tr) pos tr) (\<lambda>x. alive (case x of (success, pos, tr) \<Rightarrow>
      and_then (and_also success
                  (advance_repetition_by_range unlimited_range (call_next s ctx) pos tr) pos tr)
        (close_with ctx end_event)))"
  proof (rule post_mono)
    fix x :: advance
    obtain ok p t where x: "x = (ok, p, t)" by (cases x) auto
    assume "progress pos tr x"
    with x have le: "pos \<le> p" by simp
    have "alive (advance_repetition_by_range unlimited_range (call_next s ctx) p t)"
    proof (rule alive_driver)
      show "post (call_next s ctx q st) (progress q st)" for q st
        by (rule steadyD [OF nxt(2)])
      show "alive (call_next s ctx q st)" if "p \<le> q" for q st
        using nxt(1) r le that by (intro lively_later [where pos = pos]) simp_all
    qed
    then show "alive (case x of (success, pos, tr) \<Rightarrow>
      and_then (and_also success
                  (advance_repetition_by_range unlimited_range (call_next s ctx) pos tr) pos tr)
        (close_with ctx end_event))"
      by (simp add: x) (intro alive_and_then alive_and_also, simp_all)
  qed
qed

lemma lively_concatenation_body:
  assumes rep: "lively s r call_repetition" "steady call_repetition"
    and nxt: "lively s r call_next" "steady call_next"
  shows "lively s r (concatenation_body call_repetition call_next)"
  unfolding lively_def
proof (intro allI impI)
  fix ctx :: observer and pos :: nat and tr :: "event list"
  assume r: "length s - pos \<le> r"
  show "alive (concatenation_body call_repetition call_next s ctx pos tr)"
    using alive_bracket_body [OF rep nxt r]
    by (simp add: concatenation_body_def notify_def)
qed

lemma lively_alternation_body:
  assumes con: "lively s r call_concatenation" "steady call_concatenation"
    and nxt: "lively s r call_next" "steady call_next"
  shows "lively s r (alternation_body call_concatenation call_next)"
  unfolding lively_def
proof (intro allI impI)
  fix ctx :: observer and pos :: nat and tr :: "event list"
  assume r: "length s - pos \<le> r"
  show "alive (alternation_body call_concatenation call_next s ctx pos tr)"
    using alive_bracket_body [OF con nxt r]
    by (simp add: alternation_body_def notify_def)
qed

lemma lively_alternation_next_body:
  assumes con: "lively s r call_concatenation"
  shows "lively s r (alternation_next_body call_concatenation)"
  unfolding lively_def
proof (intro allI impI)
  fix ctx :: observer and pos :: nat and tr :: "event list"
  assume r: "length s - pos \<le> r"
  let ?p1 = "skip_comment_whitespace s pos"
  let ?p2 = "skip_comment_whitespace s (Suc ?p1)"
  have p1: "pos \<le> ?p1" by (rule skip_comment_whitespace_ge)
  have "Suc ?p1 \<le> ?p2" by (rule skip_comment_whitespace_ge)
  with p1 have p2: "pos \<le> ?p2" by simp
  have "alive (call_concatenation s ctx ?p2 tr)"
    using con r p2 by (rule lively_later)
  then have "alive (and_then (call_concatenation s ctx ?p2 tr) (\<lambda>(ok, p, tr').
      if \<not> ok then Inr (False, pos, tr')
      else Inr (fst (compare_and_assign pos p), snd (compare_and_assign pos p), tr')))"
    by (rule alive_and_then) (simp add: split_beta)
  then show "alive (alternation_next_body call_concatenation s ctx pos tr)"
    by (simp add: alternation_next_body_def Let_def deref_def and_then_def)
qed

lemma lively_group_or_option_body:
  assumes alt: "0 < r \<Longrightarrow> lively s (r - 1) call_alternation"
  shows "lively s r (group_or_option_body call_alternation)"
  unfolding lively_def
proof (intro allI impI)
  fix ctx :: observer and pos :: nat and tr :: "event list"
  assume r: "length s - pos \<le> r"
  show "alive (group_or_option_body call_alternation s ctx pos tr)"
  proof (cases "pos < length s")
    case False
    then show ?thesis by (simp add: group_or_option_body_def)
  next
    case True
    let ?p1 = "skip_comment_whitespace s (Suc pos)"
    have "Suc pos \<le> ?p1" by (rule skip_comment_whitespace_ge)
    with True r have "length s - ?p1 \<le> r - 1" and "0 < r" by arith+
    with alt have "alive (call_alternation s ctx ?p1 tr)" by (intro livelyD [where r = "r - 1"])
    then have "alive (and_then (call_alternation s ctx ?p1 tr) (\<lambda>(ok, p, tr').
        if \<not> ok then Inr (False, pos, tr')
        else (let p = skip_comment_whitespace s p
              in and_then (deref s p tr') (\<lambda>c.
                   if c \<noteq> closing_bracket then Inr (False, pos, tr')
                   else Inr (fst (compare_and_assign pos (Suc p)),
                             snd (compare_and_assign pos (Suc p)), tr')))))" for closing_bracket
      by (rule alive_and_then) (simp add: split_beta Let_def deref_def and_then_def)
    then show ?thesis
      by (simp add: group_or_option_body_def Let_def deref_def and_then_def [of "Inr _"])
  qed
qed

lemma lively_group_body:
  assumes goo: "lively s r call_group_or_option"
  shows "lively s r (group_body call_group_or_option)"
  unfolding lively_def
proof (intro allI impI)
  fix ctx :: observer and pos :: nat and tr :: "event list"
  assume r: "length s - pos \<le> r"
  have "alive (and_then (and_also success (call_group_or_option s ctx pos t) pos t)
      (close_with ctx end_group))" for success t
    using livelyD [OF goo r] by (intro alive_and_then alive_and_also) simp_all
  then show "alive (group_body call_group_or_option s ctx pos tr)"
    by (simp add: group_body_def notify_def deref_def and_then_def [of "Inr _"])
qed

lemma lively_option_body:
  assumes goo: "lively s r call_group_or_option"
  shows "lively s r (option_body call_group_or_option)"
  unfolding lively_def
proof (intro allI impI)
  fix ctx :: observer and pos :: nat and tr :: "event list"
  assume r: "length s - pos \<le> r"
  have "alive (and_then (and_also success (call_group_or_option s ctx pos t) pos t)
      (close_with ctx end_option))" for success t
    using livelyD [OF goo r] by (intro alive_and_then alive_and_also) simp_all
  then show "alive (option_body call_group_or_option s ctx pos tr)"
    by (simp add: option_body_def notify_def deref_def and_then_def [of "Inr _"])
qed


lemma lively_chain:
  assumes goo: "\<And>n. 1 + b \<le> n \<Longrightarrow> lively s r (advance n Group_or_option)"
    and n: "need k + b \<le> n"
  shows "lively s r (advance n k)"
proof -
  have gr: "lively s r (advance n Group)" if "2 + b \<le> n" for n
  proof -
    from that obtain m where m: "n = Suc m" "1 + b \<le> m" by (cases n) auto
    show ?thesis using goo [OF m(2)] by (simp add: m lively_group_body)
  qed
  have op: "lively s r (advance n Option)" if "2 + b \<le> n" for n
  proof -
    from that obtain m where m: "n = Suc m" "1 + b \<le> m" by (cases n) auto
    show ?thesis using goo [OF m(2)] by (simp add: m lively_option_body)
  qed
  have el: "lively s r (advance n Element)" if "3 + b \<le> n" for n
  proof -
    from that obtain m where m: "n = Suc m" "2 + b \<le> m" by (cases n) auto
    show ?thesis using gr [OF m(2)] op [OF m(2)]
      by (simp add: m lively_element_body steady_advance)
  qed
  have rp: "lively s r (advance n Repetition)" if "4 + b \<le> n" for n
  proof -
    from that obtain m where m: "n = Suc m" "3 + b \<le> m" by (cases n) auto
    show ?thesis using el [OF m(2)] by (simp add: m lively_repetition_body)
  qed
  have cn: "lively s r (advance n Concatenation_next)" if "5 + b \<le> n" for n
  proof -
    from that obtain m where m: "n = Suc m" "4 + b \<le> m" by (cases n) auto
    show ?thesis using rp [OF m(2)] by (simp add: m lively_concatenation_next_body)
  qed
  have co: "lively s r (advance n Concatenation)" if "6 + b \<le> n" for n
  proof -
    from that obtain m where m: "n = Suc m" "5 + b \<le> m" by (cases n) auto
    then have "4 + b \<le> m" by simp
    then show ?thesis using cn [OF m(2)] rp [of m]
      by (simp add: m lively_concatenation_body steady_advance)
  qed
  have an: "lively s r (advance n Alternation_next)" if "7 + b \<le> n" for n
  proof -
    from that obtain m where m: "n = Suc m" "6 + b \<le> m" by (cases n) auto
    show ?thesis using co [OF m(2)] by (simp add: m lively_alternation_next_body)
  qed
  have al: "lively s r (advance n Alternation)" if "8 + b \<le> n" for n
  proof -
    from that obtain m where m: "n = Suc m" "7 + b \<le> m" by (cases n) auto
    then have "6 + b \<le> m" by simp
    then show ?thesis using an [OF m(2)] co [of m]
      by (simp add: m lively_alternation_body steady_advance)
  qed
  show ?thesis
    using n goo [of n] gr [of n] op [of n] el [of n] rp [of n] cn [of n] co [of n] an [of n] al [of n]
    by (cases k) simp_all
qed

lemma lively_advance: "need k + 8 * r \<le> n \<Longrightarrow> lively s r (advance n k)"
proof (induction r arbitrary: n k)
  case 0
  have goo: "lively s 0 (advance n Group_or_option)" if "1 + 0 \<le> n" for n
  proof -
    from that obtain m where m: "n = Suc m" by (cases n) auto
    show ?thesis by (simp add: m lively_group_or_option_body)
  qed
  from 0 have "need k + 0 \<le> n" by simp
  with goo show ?case by (rule lively_chain)
next
  case (Suc r)
  have goo: "lively s (Suc r) (advance n Group_or_option)" if "1 + 8 * Suc r \<le> n" for n
  proof -
    from that obtain m where m: "n = Suc m" "need Alternation + 8 * r \<le> m" by (cases n) auto
    show ?thesis using Suc.IH [OF m(2)] by (simp add: m lively_group_or_option_body)
  qed
  from goo Suc.prems show ?case by (rule lively_chain)
qed

lemma alive_advance:
  assumes "need k + 8 * (length s - pos) \<le> n"
  shows "alive (advance n k s ctx pos tr)"
  using lively_advance [OF assms] by (rule livelyD) simp

lemma alive_and_then_total:
  assumes "alive m" and "\<And>x. alive (f x)"
  shows "alive (and_then m f)"
  using assms(1) by (rule alive_and_then) (simp add: assms(2))

lemma alive_alternation:
  assumes n: "8 + 8 * length s \<le> n"
  shows "alive (advance_alternation n s ctx pos tr)"
  unfolding advance_alternation_def using n by (intro alive_advance) simp

lemma alive_elements:
  assumes n: "8 + 8 * length s \<le> n"
  shows "alive (advance_elements n s ctx pos tr)"
  unfolding advance_elements_def
  by (intro alive_and_then_total alive_alternation [OF n]) (simp add: split_beta Let_def)

lemma alive_rule:
  assumes n: "8 + 8 * length s \<le> n"
  shows "alive (advance_rule n s ctx pos tr)"
proof (cases "pos < length s")
  case False
  then show ?thesis by (simp add: advance_rule_def)
next
  case True
  have helper: "alive (advance_rulename_helper s pos tr)"
    by (simp add: advance_rulename_helper_def deref_def and_then_def Let_def)
  show ?thesis
    unfolding advance_rule_def
    by (auto simp: split_beta Let_def
          intro!: alive_and_then_total alive_and_also alive_elements [OF n] helper)
qed

lemma alive_rulelist_next:
  assumes n: "8 + 8 * length s \<le> n"
  shows "alive (rulelist_next n s ctx pos tr)"
  unfolding rulelist_next_def
  by (rule alive_and_then_total [OF alive_rule [OF n]]) (simp add: split_beta Let_def)

lemma alive_rulelist:
  assumes n: "8 + 8 * length s \<le> n"
  shows "alive (advance_rulelist n s ctx pos tr)"
proof -
  have "alive (advance_repetition_by_range (make_range 1) (rulelist_next n s ctx) pos t)" for t
  proof (rule alive_driver)
    show "post (rulelist_next n s ctx p st) (progress p st)" for p st
      by (rule steadyD [OF steady_rulelist_next])
    show "alive (rulelist_next n s ctx p st)" for p st
      by (rule alive_rulelist_next [OF n])
  qed
  then have "alive (and_then (and_also success
        (advance_repetition_by_range (make_range 1) (rulelist_next n s ctx) pos t) pos t)
        (close_with ctx end_document))" for success t
    by (intro alive_and_then_total alive_and_also alive_close_with)
  then show ?thesis
    by (simp add: advance_rulelist_def split_beta Let_def)
qed

lemma enough_fuel_advance:
  assumes n: "8 + 8 * length s \<le> n"
  shows "advance n k s ctx pos tr \<noteq> Inl fuel_exhausted"
proof -
  have "need k \<le> 8" by (cases k) simp_all
  moreover have "8 * (length s - pos) \<le> 8 * length s" by simp
  ultimately have "need k + 8 * (length s - pos) \<le> n" using n by linarith
  then have "alive (advance n k s ctx pos tr)" by (rule alive_advance)
  then show ?thesis by (simp add: alive_def)
qed

lemma enough_fuel:
  assumes n: "8 + 8 * length s \<le> n"
  shows "advance_element n s ctx pos tr \<noteq> Inl fuel_exhausted"
    and "advance_repetition n s ctx pos tr \<noteq> Inl fuel_exhausted"
    and "advance_concatenation n s ctx pos tr \<noteq> Inl fuel_exhausted"
    and "advance_alternation n s ctx pos tr \<noteq> Inl fuel_exhausted"
    and "advance_group n s ctx pos tr \<noteq> Inl fuel_exhausted"
    and "advance_option n s ctx pos tr \<noteq> Inl fuel_exhausted"
    and "advance_elements n s ctx pos tr \<noteq> Inl fuel_exhausted"
    and "advance_rule n s ctx pos tr \<noteq> Inl fuel_exhausted"
    and "advance_rulelist n s ctx pos tr \<noteq> Inl fuel_exhausted"
proof -
  show "advance_element n s ctx pos tr \<noteq> Inl fuel_exhausted"
    unfolding advance_element_def by (rule enough_fuel_advance [OF n])
  show "advance_repetition n s ctx pos tr \<noteq> Inl fuel_exhausted"
    unfolding advance_repetition_def by (rule enough_fuel_advance [OF n])
  show "advance_concatenation n s ctx pos tr \<noteq> Inl fuel_exhausted"
    unfolding advance_concatenation_def by (rule enough_fuel_advance [OF n])
  show "advance_alternation n s ctx pos tr \<noteq> Inl fuel_exhausted"
    unfolding advance_alternation_def by (rule enough_fuel_advance [OF n])
  show "advance_group n s ctx pos tr \<noteq> Inl fuel_exhausted"
    unfolding advance_group_def by (rule enough_fuel_advance [OF n])
  show "advance_option n s ctx pos tr \<noteq> Inl fuel_exhausted"
    unfolding advance_option_def by (rule enough_fuel_advance [OF n])
  show "advance_elements n s ctx pos tr \<noteq> Inl fuel_exhausted"
    using alive_elements [OF n] by (simp add: alive_def)
  show "advance_rule n s ctx pos tr \<noteq> Inl fuel_exhausted"
    using alive_rule [OF n] by (simp add: alive_def)
  show "advance_rulelist n s ctx pos tr \<noteq> Inl fuel_exhausted"
    using alive_rulelist [OF n] by (simp add: alive_def)
qed

subsection \<open>A read at the end position\<close>

text \<open>
  A call that reads the character at the end position has made callbacks that nest as far
  as they go: the begin callbacks of the productions under way are open, and every end
  callback made so far closed the one opened last.
\<close>

lemma nested_unclosed: "nested st evs = (unclosed st evs = Some [])"
  by (induction evs arbitrary: st) (auto split: option.splits list.splits)

lemma unclosed_under:
  "unclosed st evs = Some st' \<Longrightarrow> unclosed (st @ outer) evs = Some (st' @ outer)"
proof (induction evs arbitrary: st)
  case Nil
  then show ?case by simp
next
  case (Cons ev evs)
  show ?case
  proof (cases "begins ev")
    case (Some b)
    with Cons.prems have "unclosed (b # st) evs = Some st'" by simp
    then have "unclosed ((b # st) @ outer) evs = Some (st' @ outer)" by (rule Cons.IH)
    with Some show ?thesis by simp
  next
    case None
    show ?thesis
    proof (cases "ends ev")
      case n: None
      with None Cons.prems have "unclosed st evs = Some st'" by simp
      then have "unclosed (st @ outer) evs = Some (st' @ outer)" by (rule Cons.IH)
      with None n show ?thesis by simp
    next
      case (Some b)
      with None Cons.prems obtain others where i: "st = b # others"
        and r: "unclosed others evs = Some st'"
        by (cases st) (auto split: if_splits)
      from r have "unclosed (others @ outer) evs = Some (st' @ outer)" by (rule Cons.IH)
      with None Some i show ?thesis by simp
    qed
  qed
qed

lemma unclosed_append:
  "unclosed st xs = Some st' \<Longrightarrow> unclosed st (xs @ ys) = unclosed st' ys"
  by (induction xs arbitrary: st) (auto split: option.splits list.splits if_splits)

lemma interrupted_refl [simp]: "interrupted tr tr"
  by (simp add: interrupted_def)

lemma interrupted_trans:
  assumes "interrupted tr t" "interrupted t u"
  shows "interrupted tr u"
proof -
  from assms(1) obtain xs st where t: "t = tr @ xs" and xs: "unclosed [] xs = Some st"
    by (auto simp: interrupted_def)
  from assms(2) obtain ys st' where u: "u = t @ ys" and ys: "unclosed [] ys = Some st'"
    by (auto simp: interrupted_def)
  from ys have "unclosed ([] @ st) ys = Some (st' @ st)" by (rule unclosed_under)
  with xs have "unclosed [] (xs @ ys) = Some (st' @ st)" by (simp add: unclosed_append)
  with t u show ?thesis by (auto simp: interrupted_def)
qed

lemma grows_interrupted: "grows tr t \<Longrightarrow> interrupted tr t"
  by (auto simp: grows_def interrupted_def balanced_def nested_unclosed)

lemma interrupted_event [simp]: "ends ev = None \<Longrightarrow> interrupted tr (tr @ [ev])"
  by (auto simp: interrupted_def split: option.splits)

lemma on_fault_simps [simp]:
  "on_fault (Inr x) F"
  "on_fault (Inl fuel_exhausted) F"
  "on_fault (Inl (end_dereferenced t)) F = F t"
  by (simp_all add: on_fault_def)

lemma on_fault_deref [simp]: "on_fault (deref s p tr) (interrupted tr)"
  by (simp add: deref_def)

lemma on_fault_finish [simp]: "on_fault (finish success pos p tr) F"
  by (simp add: finish_def)

lemma on_fault_close_with [simp]: "on_fault (close_with ctx end_event r) F"
  by (cases r) (simp add: close_with_def)

lemma on_fault_later:
  assumes "interrupted tr t" "on_fault m (interrupted t)"
  shows "on_fault m (interrupted tr)"
proof (cases m)
  case (Inl e)
  with assms show ?thesis by (cases e) (auto intro: interrupted_trans)
next
  case (Inr x)
  then show ?thesis by simp
qed

lemma on_fault_and_then:
  "on_fault m F \<Longrightarrow> post m (\<lambda>x. on_fault (f x) F) \<Longrightarrow> on_fault (and_then m f) F"
  by (cases m) (auto simp: and_then_def on_fault_def)

lemma on_fault_or_else:
  "on_fault m F \<Longrightarrow> post m (\<lambda>(ok, p, t). on_fault (f p t) F) \<Longrightarrow> on_fault (or_else m f) F"
  by (cases m) (auto simp: or_else_def on_fault_def)

lemma on_fault_and_also: "on_fault m F \<Longrightarrow> on_fault (and_also success m pos tr) F"
  by (simp add: and_also_def)

text \<open>A call that makes progress, and then one that goes on from its callbacks.\<close>

lemma on_fault_then:
  assumes m: "on_fault m (interrupted tr)" "post m (progress pos tr)"
    and f: "\<And>ok p t. pos \<le> p \<Longrightarrow> grows tr t \<Longrightarrow> on_fault (f (ok, p, t)) (interrupted t)"
  shows "on_fault (and_then m f) (interrupted tr)"
  using m(1)
proof (rule on_fault_and_then)
  show "post m (\<lambda>x. on_fault (f x) (interrupted tr))"
  proof (rule post_mono [OF m(2)])
    fix x :: advance
    obtain ok p t where x: "x = (ok, p, t)" by (cases x) auto
    assume "progress pos tr x"
    with x have "pos \<le> p" "grows tr t" by simp_all
    then show "on_fault (f x) (interrupted tr)"
      unfolding x by (intro on_fault_later [OF grows_interrupted f])
  qed
qed

lemma on_fault_else:
  assumes m: "on_fault m (interrupted tr)" "post m (progress pos tr)"
    and f: "\<And>p t. pos \<le> p \<Longrightarrow> grows tr t \<Longrightarrow> on_fault (f p t) (interrupted t)"
  shows "on_fault (or_else m f) (interrupted tr)"
  using m(1)
proof (rule on_fault_or_else)
  show "post m (\<lambda>(ok, p, t). on_fault (f p t) (interrupted tr))"
  proof (rule post_mono [OF m(2)])
    fix x :: advance
    obtain ok p t where x: "x = (ok, p, t)" by (cases x) auto
    assume "progress pos tr x"
    with x have "pos \<le> p" "grows tr t" by simp_all
    then show "case x of (ok, p, t) \<Rightarrow> on_fault (f p t) (interrupted tr)"
      unfolding x by (simp add: on_fault_later [OF grows_interrupted f])
  qed
qed

lemma carefulD: "careful f \<Longrightarrow> on_fault (f s ctx pos tr) (interrupted tr)"
  by (simp add: careful_def)

lemma interrupted_and_notify [simp]:
  "ends ev = None \<Longrightarrow> interrupted tr (snd (and_notify success ctx tr ev))"
  by (simp add: and_notify_def notify_def)

lemma on_fault_number_sequence:
  "on_fault (number_sequence s ctx flag success p tr) (interrupted tr)"
proof (induction s ctx flag success p tr rule: number_sequence.induct)
  case (1 s ctx flag success p tr)
  let ?tr = "snd (and_notify success ctx tr (next_number flag (Suc p) (snd (advance_func flag s (Suc p)))))"
  show ?case
  proof (cases "p < length s \<and> s ! p = CHR ''.'' \<and> Suc p < length s
      \<and> is_digit_func flag (s ! Suc p) \<and> fst (advance_func flag s (Suc p))")
    case True
    then have "on_fault (number_sequence s ctx flag
        (fst (and_notify success ctx tr (next_number flag (Suc p) (snd (advance_func flag s (Suc p))))))
        (snd (advance_func flag s (Suc p))) ?tr) (interrupted ?tr)"
      by (intro "1.IH" [of "CHR ''.''" "s ! Suc p"]) (simp_all add: deref_def)
    then have "on_fault (number_sequence s ctx flag
        (fst (and_notify success ctx tr (next_number flag (Suc p) (snd (advance_func flag s (Suc p))))))
        (snd (advance_func flag s (Suc p))) ?tr) (interrupted tr)"
      by (rule on_fault_later [rotated]) simp
    with True show ?thesis
      by (subst number_sequence.simps) (simp add: deref_def and_then_def)
  next
    case False
    then show ?thesis
      by (subst number_sequence.simps) (auto simp: deref_def and_then_def)
  qed
qed

lemma on_fault_number_value:
  "on_fault (number_value s ctx flag pos p tr) (interrupted tr)"
proof -
  have seq: "on_fault (number_sequence s ctx flag success q (tr @ [ev])) (interrupted tr)"
    if "ends ev = None" for success q ev
    using that by (intro on_fault_later [OF _ on_fault_number_sequence]) simp
  show ?thesis
    by (auto simp: number_value_def deref_def notify_def Let_def split_beta
          intro!: on_fault_and_then seq)
qed

lemma careful_leaves:
  "careful advance_prose" "careful advance_number" "careful advance_quoted_string"
  "careful advance_repeat" "careful advance_rulename"
proof -
  show "careful advance_prose"
    by (simp add: careful_def advance_prose_def deref_def and_then_def Let_def split_beta)
  show "careful advance_number"
    using on_fault_number_value
    by (simp add: careful_def advance_number_def deref_def and_then_def Let_def)
  show "careful advance_quoted_string"
    by (simp add: careful_def advance_quoted_string_def deref_def and_then_def Let_def split_beta
          split: sum.splits)
  show "careful advance_repeat"
    by (simp add: careful_def advance_repeat_def repeat_bounds_def deref_def and_then_def
          Let_def split_beta)
  show "careful advance_rulename"
    by (simp add: careful_def advance_rulename_def advance_rulename_helper_def deref_def
          and_then_def Let_def split_beta)
qed

lemma on_fault_repeat_op:
  assumes op: "\<And>p t. post (op p t) (progress p t)"
    and fault: "\<And>p t. on_fault (op p t) (interrupted t)"
  shows "on_fault (repeat_op op high applied p tr) (interrupted tr)"
  using op fault
proof (induction op high applied p tr rule: repeat_op.induct)
  case (1 op' high applied p tr)
  show ?case
  proof (cases "applied < high")
    case False
    then show ?thesis by (subst repeat_op.simps) simp
  next
    case True
    show ?thesis
    proof (cases "op' p tr")
      case (Inl e)
      from "1.prems"(2) [of p tr] Inl have "on_fault (Inl e :: fault + int \<times> nat \<times> event list) (interrupted tr)"
        by (cases e) simp_all
      with True Inl show ?thesis by (subst repeat_op.simps) simp
    next
      case (Inr r)
      obtain ok p' t' where r: "r = (ok, p', t')" by (cases r) auto
      from "1.prems"(1) [of p tr] Inr r have step: "grows tr t'" by simp
      show ?thesis
      proof (cases ok)
        case False
        with True Inr r show ?thesis by (subst repeat_op.simps) simp
      next
        case ok: True
        have "on_fault (repeat_op op' high (applied + 1) p' t') (interrupted t')"
          using True Inr r ok "1.prems" by (intro "1.IH") simp_all
        then have "on_fault (repeat_op op' high (applied + 1) p' t') (interrupted tr)"
          by (rule on_fault_later [OF grows_interrupted [OF step]])
        with True Inr r ok show ?thesis by (subst repeat_op.simps) simp
      qed
    qed
  qed
qed

lemma on_fault_driver:
  assumes op: "\<And>p t. post (op p t) (progress p t)"
    and fault: "\<And>p t. on_fault (op p t) (interrupted t)"
  shows "on_fault (advance_repetition_by_range bounds op pos tr) (interrupted tr)"
proof -
  have "on_fault (repeat_op op (snd bounds) 0 pos tr) (interrupted tr)"
    using op fault by (rule on_fault_repeat_op)
  then show ?thesis
    by (auto simp: advance_repetition_by_range_def split_beta intro!: on_fault_and_then)
qed

lemma on_fault_closing:
  "on_fault m F \<Longrightarrow> on_fault (and_then (and_also success m pos tr) (close_with ctx end_event)) F"
  by (intro on_fault_and_then on_fault_and_also) simp_all

lemma on_fault_returning:
  "on_fault m F \<Longrightarrow> (\<And>x. on_fault (f x) F) \<Longrightarrow> on_fault (and_then m f) F"
  by (rule on_fault_and_then) (auto intro: post_mono [of m "\<lambda>x. True"])

lemma careful_or_else:
  assumes "careful f" "steady f" "\<And>p t. on_fault (g p t) (interrupted t)"
  shows "on_fault (or_else (f s ctx pos tr) g) (interrupted tr)"
  using carefulD [OF assms(1)] steadyD [OF assms(2)] assms(3) by (rule on_fault_else)

lemma careful_element_body:
  assumes g: "careful call_group" "steady call_group"
    and o: "careful call_option" "steady call_option"
  shows "careful (element_body call_group call_option)"
  unfolding careful_def
proof (intro allI)
  fix s :: string and ctx :: observer and pos :: nat and tr :: "event list"
  show "on_fault (element_body call_group call_option s ctx pos tr) (interrupted tr)"
  proof (cases "pos < length s")
    case False
    then show ?thesis by (simp add: element_body_def)
  next
    case True
    have "on_fault (or_else (advance_rulename s ctx pos tr) (\<lambda>pos tr.
        or_else (call_group s ctx pos tr) (\<lambda>pos tr.
        or_else (call_option s ctx pos tr) (\<lambda>pos tr.
        or_else (advance_number s ctx pos tr) (\<lambda>pos tr.
        or_else (advance_quoted_string s ctx pos tr) (\<lambda>pos tr.
        advance_prose s ctx pos tr)))))) (interrupted tr)"
      by (intro careful_or_else careful_leaves steady_rulename g o steady_number
            steady_quoted_string carefulD)
    with True show ?thesis by (simp add: element_body_def)
  qed
qed

lemma careful_repetition_body:
  assumes el: "careful call_element"
  shows "careful (repetition_body call_element)"
  unfolding careful_def
proof (intro allI)
  fix s :: string and ctx :: observer and pos :: nat and tr :: "event list"
  let ?tr1 = "tr @ [begin_repetition]"
  have "on_fault (and_then (advance_repeat s ctx pos ?tr1) (\<lambda>(ignored, p', t').
      and_then (and_also success (call_element s ctx p' t') p' t') (close_with ctx end_repetition)))
      (interrupted ?tr1)" for success
  proof (rule on_fault_then)
    show "on_fault (advance_repeat s ctx pos ?tr1) (interrupted ?tr1)"
      by (rule carefulD [OF careful_leaves(4)])
    show "post (advance_repeat s ctx pos ?tr1) (progress pos ?tr1)"
      by (rule steadyD [OF steady_repeat])
    show "on_fault (case (ok, p, t) of (ignored, p', t') \<Rightarrow>
      and_then (and_also success (call_element s ctx p' t') p' t') (close_with ctx end_repetition))
      (interrupted t)" for ok p t
      by (simp add: on_fault_closing carefulD [OF el])
  qed
  then have "on_fault (and_then (advance_repeat s ctx pos ?tr1) (\<lambda>(ignored, p', t').
      and_then (and_also success (call_element s ctx p' t') p' t') (close_with ctx end_repetition)))
      (interrupted tr)" for success
    by (rule on_fault_later [rotated]) simp
  then show "on_fault (repetition_body call_element s ctx pos tr) (interrupted tr)"
    by (simp add: repetition_body_def notify_def)
qed

lemma careful_concatenation_next_body:
  assumes rep: "careful call_repetition"
  shows "careful (concatenation_next_body call_repetition)"
  unfolding careful_def
proof (intro allI)
  fix s :: string and ctx :: observer and pos :: nat and tr :: "event list"
  let ?ws = "\<lambda>pos tr. Inr (fst (advance_comment_whitespace s pos), snd (advance_comment_whitespace s pos), tr)
      :: fault + advance"
  have ws: "post (?ws p t) (progress p t)" for p t
    by (simp add: advance_comment_whitespace_ge grows_refl)
  show "on_fault (concatenation_next_body call_repetition s ctx pos tr) (interrupted tr)"
    unfolding concatenation_next_body_def
  proof (rule on_fault_then)
    show "on_fault (advance_repetition_by_range (make_range 1) ?ws pos tr) (interrupted tr)"
      using ws by (rule on_fault_driver) simp
    show "post (advance_repetition_by_range (make_range 1) ?ws pos tr) (progress pos tr)"
      using ws by (rule driver_progress)
    show "on_fault (case (ok, p, t) of (ok, p, tr') \<Rightarrow>
          if \<not> ok then Inr (False, pos, tr')
          else and_then (call_repetition s ctx p tr') (\<lambda>(ok, p, tr').
            if \<not> ok then Inr (False, pos, tr')
            else Inr (fst (compare_and_assign pos p), snd (compare_and_assign pos p), tr')))
        (interrupted t)" for ok p t
      by (auto simp: split_beta intro!: on_fault_returning carefulD [OF rep])
  qed
qed

lemma on_fault_bracket_body:
  assumes first: "careful call_first" "steady call_first"
    and nxt: "careful call_next" "steady call_next"
  shows "on_fault (and_then (and_also success (call_first s ctx pos tr) pos tr)
        (\<lambda>(success, pos, tr).
           and_then (and_also success
                       (advance_repetition_by_range unlimited_range (call_next s ctx) pos tr) pos tr)
             (close_with ctx end_event))) (interrupted tr)"
proof (rule on_fault_then)
  show "on_fault (and_also success (call_first s ctx pos tr) pos tr) (interrupted tr)"
    by (rule on_fault_and_also) (rule carefulD [OF first(1)])
  show "post (and_also success (call_first s ctx pos tr) pos tr) (progress pos tr)"
    using steadyD [OF first(2), of s ctx pos tr] by (simp add: grows_refl)
  show "on_fault (case (ok, p, t) of (success, pos, tr) \<Rightarrow>
      and_then (and_also success
                  (advance_repetition_by_range unlimited_range (call_next s ctx) pos tr) pos tr)
        (close_with ctx end_event)) (interrupted t)" for ok p t
  proof -
    have "on_fault (advance_repetition_by_range unlimited_range (call_next s ctx) p t) (interrupted t)"
      by (rule on_fault_driver) (rule steadyD [OF nxt(2)], rule carefulD [OF nxt(1)])
    then show ?thesis by (simp add: on_fault_closing)
  qed
qed

lemma careful_concatenation_body:
  assumes rep: "careful call_repetition" "steady call_repetition"
    and nxt: "careful call_next" "steady call_next"
  shows "careful (concatenation_body call_repetition call_next)"
  unfolding careful_def
proof (intro allI)
  fix s :: string and ctx :: observer and pos :: nat and tr :: "event list"
  have "on_fault (and_then (and_also success (call_repetition s ctx pos (tr @ [begin_concatenation])) pos (tr @ [begin_concatenation]))
        (\<lambda>(success, pos, tr).
           and_then (and_also success
                       (advance_repetition_by_range unlimited_range (call_next s ctx) pos tr) pos tr)
             (close_with ctx end_concatenation))) (interrupted tr)" for success
    by (rule on_fault_later [OF _ on_fault_bracket_body [OF rep nxt]]) simp
  then show "on_fault (concatenation_body call_repetition call_next s ctx pos tr) (interrupted tr)"
    by (simp add: concatenation_body_def notify_def)
qed

lemma careful_alternation_body:
  assumes con: "careful call_concatenation" "steady call_concatenation"
    and nxt: "careful call_next" "steady call_next"
  shows "careful (alternation_body call_concatenation call_next)"
  unfolding careful_def
proof (intro allI)
  fix s :: string and ctx :: observer and pos :: nat and tr :: "event list"
  have "on_fault (and_then (and_also success (call_concatenation s ctx pos (tr @ [begin_alternation])) pos (tr @ [begin_alternation]))
        (\<lambda>(success, pos, tr).
           and_then (and_also success
                       (advance_repetition_by_range unlimited_range (call_next s ctx) pos tr) pos tr)
             (close_with ctx end_alternation))) (interrupted tr)" for success
    by (rule on_fault_later [OF _ on_fault_bracket_body [OF con nxt]]) simp
  then show "on_fault (alternation_body call_concatenation call_next s ctx pos tr) (interrupted tr)"
    by (simp add: alternation_body_def notify_def)
qed

lemma careful_alternation_next_body:
  assumes con: "careful call_concatenation"
  shows "careful (alternation_next_body call_concatenation)"
  unfolding careful_def
proof (intro allI)
  fix s :: string and ctx :: observer and pos :: nat and tr :: "event list"
  have "on_fault (and_then (call_concatenation s ctx p tr) (\<lambda>(ok, p, tr').
      if \<not> ok then Inr (False, pos, tr')
      else Inr (fst (compare_and_assign pos p), snd (compare_and_assign pos p), tr')))
      (interrupted tr)" for p
    by (rule on_fault_returning [OF carefulD [OF con]]) (simp add: split_beta)
  then show "on_fault (alternation_next_body call_concatenation s ctx pos tr) (interrupted tr)"
    by (simp add: alternation_next_body_def Let_def deref_def and_then_def [of "Inr _"])
qed

lemma careful_group_or_option_body:
  assumes alt: "careful call_alternation" "steady call_alternation"
  shows "careful (group_or_option_body call_alternation)"
  unfolding careful_def
proof (intro allI)
  fix s :: string and ctx :: observer and pos :: nat and tr :: "event list"
  have "on_fault (and_then (call_alternation s ctx p tr) (\<lambda>(ok, p, tr').
        if \<not> ok then Inr (False, pos, tr')
        else (let p = skip_comment_whitespace s p
              in and_then (deref s p tr') (\<lambda>c.
                   if c \<noteq> closing_bracket then Inr (False, pos, tr')
                   else Inr (fst (compare_and_assign pos (Suc p)),
                             snd (compare_and_assign pos (Suc p)), tr')))))
      (interrupted tr)" for closing_bracket p
  proof (rule on_fault_then)
    show "on_fault (call_alternation s ctx p tr) (interrupted tr)" by (rule carefulD [OF alt(1)])
    show "post (call_alternation s ctx p tr) (progress p tr)" by (rule steadyD [OF alt(2)])
    show "on_fault (case (ok, q, t) of (ok, p, tr') \<Rightarrow>
        if \<not> ok then Inr (False, pos, tr')
        else (let p = skip_comment_whitespace s p
              in and_then (deref s p tr') (\<lambda>c.
                   if c \<noteq> closing_bracket then Inr (False, pos, tr')
                   else Inr (fst (compare_and_assign pos (Suc p)),
                             snd (compare_and_assign pos (Suc p)), tr'))))
      (interrupted t)" for ok q t
      by (simp add: Let_def deref_def and_then_def)
  qed
  then show "on_fault (group_or_option_body call_alternation s ctx pos tr) (interrupted tr)"
    by (simp add: group_or_option_body_def Let_def deref_def and_then_def [of "Inr _"])
qed

lemma careful_group_body:
  assumes goo: "careful call_group_or_option"
  shows "careful (group_body call_group_or_option)"
  unfolding careful_def
proof (intro allI)
  fix s :: string and ctx :: observer and pos :: nat and tr :: "event list"
  have "on_fault (and_then (and_also success (call_group_or_option s ctx pos (tr @ [begin_group])) pos (tr @ [begin_group]))
      (close_with ctx end_group)) (interrupted tr)" for success
    by (rule on_fault_later [OF _ on_fault_closing [OF carefulD [OF goo]]]) simp
  then show "on_fault (group_body call_group_or_option s ctx pos tr) (interrupted tr)"
    by (simp add: group_body_def notify_def deref_def and_then_def [of "Inr _"])
qed

lemma careful_option_body:
  assumes goo: "careful call_group_or_option"
  shows "careful (option_body call_group_or_option)"
  unfolding careful_def
proof (intro allI)
  fix s :: string and ctx :: observer and pos :: nat and tr :: "event list"
  have "on_fault (and_then (and_also success (call_group_or_option s ctx pos (tr @ [begin_option])) pos (tr @ [begin_option]))
      (close_with ctx end_option)) (interrupted tr)" for success
    by (rule on_fault_later [OF _ on_fault_closing [OF carefulD [OF goo]]]) simp
  then show "on_fault (option_body call_group_or_option s ctx pos tr) (interrupted tr)"
    by (simp add: option_body_def notify_def deref_def and_then_def [of "Inr _"])
qed

lemma careful_advance: "careful (advance n k)"
proof (induction n arbitrary: k)
  case 0
  show ?case by (simp add: careful_def)
next
  case (Suc n)
  show ?case
    by (cases k)
       (simp_all add: Suc.IH steady_advance careful_element_body careful_repetition_body
          careful_concatenation_next_body careful_concatenation_body
          careful_alternation_next_body careful_alternation_body
          careful_group_or_option_body careful_group_body careful_option_body)
qed

lemma careful_advancers:
  "careful (advance_element n)" "careful (advance_repetition n)" "careful (concatenation_next n)"
  "careful (advance_concatenation n)" "careful (alternation_next n)" "careful (advance_alternation n)"
  "careful (advance_group_or_option n)" "careful (advance_group n)" "careful (advance_option n)"
  by (simp_all add: careful_advance advance_element_def advance_repetition_def
        concatenation_next_def advance_concatenation_def alternation_next_def
        advance_alternation_def advance_group_or_option_def advance_group_def advance_option_def)

lemma careful_elements: "careful (advance_elements n)"
  unfolding careful_def advance_elements_def
  by (intro allI on_fault_returning carefulD [OF careful_advancers(6)]) (simp add: split_beta Let_def)

lemma careful_rule: "careful (advance_rule n)"
  unfolding careful_def
proof (intro allI)
  fix s :: string and ctx :: observer and pos :: nat and tr :: "event list"
  have tail: "on_fault (and_then (and_also success (advance_elements n s ctx p (tr @ [b])) p (tr @ [b])) f)
      (interrupted tr)"
    if "ends b = None" "\<And>x. on_fault (f x) (interrupted tr)"
    for success p b and f :: "advance \<Rightarrow> fault + advance"
  proof (rule on_fault_returning)
    have "on_fault (advance_elements n s ctx p (tr @ [b])) (interrupted tr)"
      using that(1) by (intro on_fault_later [OF _ carefulD [OF careful_elements]]) simp
    then show "on_fault (and_also success (advance_elements n s ctx p (tr @ [b])) p (tr @ [b])) (interrupted tr)"
      by (rule on_fault_and_also)
  qed (rule that(2))
  show "on_fault (advance_rule n s ctx pos tr) (interrupted tr)"
    unfolding advance_rule_def
    by (auto simp: split_beta Let_def notify_def advance_rulename_helper_def deref_def
          and_then_def [of "Inr _"] intro!: tail)
qed

lemma careful_rulelist_next: "careful (rulelist_next n)"
  unfolding careful_def rulelist_next_def
  by (intro allI on_fault_returning carefulD [OF careful_rule]) (simp add: split_beta Let_def)

lemma careful_rulelist: "careful (advance_rulelist n)"
  unfolding careful_def
proof (intro allI)
  fix s :: string and ctx :: observer and pos :: nat and tr :: "event list"
  let ?tr1 = "tr @ [begin_document]"
  have "on_fault (advance_repetition_by_range (make_range 1) (rulelist_next n s ctx) pos ?tr1)
      (interrupted ?tr1)"
    by (rule on_fault_driver)
       (rule steadyD [OF steady_rulelist_next], rule carefulD [OF careful_rulelist_next])
  then have "on_fault (and_then (and_also success
        (advance_repetition_by_range (make_range 1) (rulelist_next n s ctx) pos ?tr1) pos ?tr1)
        (close_with ctx end_document)) (interrupted ?tr1)" for success
    by (rule on_fault_closing)
  then have "on_fault (and_then (and_also success
        (advance_repetition_by_range (make_range 1) (rulelist_next n s ctx) pos ?tr1) pos ?tr1)
        (close_with ctx end_document)) (interrupted tr)" for success
    by (rule on_fault_later [rotated]) simp
  then show "on_fault (advance_rulelist n s ctx pos tr) (interrupted tr)"
    by (simp add: advance_rulelist_def notify_def)
qed

lemma carefulE:
  "careful f \<Longrightarrow> f s ctx pos tr = Inl (end_dereferenced t) \<Longrightarrow> interrupted tr t"
  using carefulD [of f s ctx pos tr] by simp




end
